theory Spec2Isabelle
  imports Complex_Main
begin

section \<open>JavaScript numbers\<close>

text \<open>
  The program computes with JavaScript numbers. A finite number is modelled as a real
  (rounding, overflow to an infinity and the sign of zero are not modelled); the three
  special values \<open>Infinity\<close>, \<open>-Infinity\<close> and \<open>NaN\<close> are values of their own, and the
  arithmetic below produces and propagates them as the language does. The rounding is
  added in the section on double precision, for the comparison of \<open>calculateMM1\<close> with
  \<open>calculateMMS\<close>, which depends on it.
\<close>

datatype jsnum = Fin real | PInf | NInf | NaN

fun js_neg :: "jsnum \<Rightarrow> jsnum" where
  "js_neg (Fin a) = Fin (- a)"
| "js_neg PInf = NInf"
| "js_neg NInf = PInf"
| "js_neg NaN = NaN"

fun js_add :: "jsnum \<Rightarrow> jsnum \<Rightarrow> jsnum" where
  "js_add NaN _ = NaN"
| "js_add _ NaN = NaN"
| "js_add (Fin a) (Fin b) = Fin (a + b)"
| "js_add (Fin a) PInf = PInf"
| "js_add (Fin a) NInf = NInf"
| "js_add PInf (Fin b) = PInf"
| "js_add NInf (Fin b) = NInf"
| "js_add PInf PInf = PInf"
| "js_add NInf NInf = NInf"
| "js_add PInf NInf = NaN"
| "js_add NInf PInf = NaN"

definition js_sub :: "jsnum \<Rightarrow> jsnum \<Rightarrow> jsnum" where
  "js_sub x y = js_add x (js_neg y)"

text \<open>The sign of an infinity scaled by a finite factor; zero times an infinity is NaN.\<close>

definition inf_times :: "bool \<Rightarrow> real \<Rightarrow> jsnum" where
  "inf_times pos b = (if b = 0 then NaN else if (0 < b) = pos then PInf else NInf)"

fun js_mul :: "jsnum \<Rightarrow> jsnum \<Rightarrow> jsnum" where
  "js_mul NaN _ = NaN"
| "js_mul _ NaN = NaN"
| "js_mul (Fin a) (Fin b) = Fin (a * b)"
| "js_mul (Fin a) PInf = inf_times True a"
| "js_mul (Fin a) NInf = inf_times False a"
| "js_mul PInf (Fin b) = inf_times True b"
| "js_mul NInf (Fin b) = inf_times False b"
| "js_mul PInf PInf = PInf"
| "js_mul NInf NInf = PInf"
| "js_mul PInf NInf = NInf"
| "js_mul NInf PInf = NInf"

text \<open>
  Division: a finite nonzero number over zero is an infinity of its sign, zero over zero
  is NaN, a finite number over an infinity is zero, an infinity over an infinity is NaN.
\<close>

fun js_div :: "jsnum \<Rightarrow> jsnum \<Rightarrow> jsnum" where
  "js_div NaN _ = NaN"
| "js_div _ NaN = NaN"
| "js_div (Fin a) (Fin b) =
     (if b = 0 then (if a = 0 then NaN else if 0 < a then PInf else NInf) else Fin (a / b))"
| "js_div (Fin a) PInf = Fin 0"
| "js_div (Fin a) NInf = Fin 0"
| "js_div PInf (Fin b) = (if 0 \<le> b then PInf else NInf)"
| "js_div NInf (Fin b) = (if 0 \<le> b then NInf else PInf)"
| "js_div PInf PInf = NaN"
| "js_div NInf NInf = NaN"
| "js_div PInf NInf = NaN"
| "js_div NInf PInf = NaN"

text \<open>Comparisons: every comparison with NaN is false.\<close>

fun js_lt :: "jsnum \<Rightarrow> jsnum \<Rightarrow> bool" where
  "js_lt NaN _ = False"
| "js_lt _ NaN = False"
| "js_lt (Fin a) (Fin b) = (a < b)"
| "js_lt (Fin a) PInf = True"
| "js_lt (Fin a) NInf = False"
| "js_lt PInf _ = False"
| "js_lt NInf (Fin b) = True"
| "js_lt NInf PInf = True"
| "js_lt NInf NInf = False"

fun js_le :: "jsnum \<Rightarrow> jsnum \<Rightarrow> bool" where
  "js_le NaN _ = False"
| "js_le _ NaN = False"
| "js_le (Fin a) (Fin b) = (a \<le> b)"
| "js_le (Fin a) PInf = True"
| "js_le (Fin a) NInf = False"
| "js_le PInf (Fin b) = False"
| "js_le PInf PInf = True"
| "js_le PInf NInf = False"
| "js_le NInf _ = True"

definition js_ge :: "jsnum \<Rightarrow> jsnum \<Rightarrow> bool" where
  "js_ge x y = js_le y x"

text \<open>
  \<open>Math.pow\<close> for a finite exponent, which is all the calculator passes: anything to the
  power zero is 1, then NaN propagates, then the infinite and zero bases, then a negative
  base with a fractional exponent is NaN.
\<close>

definition is_int :: "real \<Rightarrow> bool" where
  "is_int e = (of_int \<lfloor>e\<rfloor> = e)"

definition is_odd_int :: "real \<Rightarrow> bool" where
  "is_odd_int e = (is_int e \<and> odd \<lfloor>e\<rfloor>)"

fun js_pow :: "jsnum \<Rightarrow> real \<Rightarrow> jsnum" where
  "js_pow NaN e = (if e = 0 then Fin 1 else NaN)"
| "js_pow PInf e = (if e = 0 then Fin 1 else if 0 < e then PInf else Fin 0)"
| "js_pow NInf e =
     (if e = 0 then Fin 1
      else if 0 < e then (if is_odd_int e then NInf else PInf)
      else Fin 0)"
| "js_pow (Fin b) e =
     (if e = 0 then Fin 1
      else if b = 0 then (if 0 < e then Fin 0 else PInf)
      else if 0 < b then Fin (b powr e)
      else if is_int e then Fin ((if is_odd_int e then - 1 else 1) * (\<bar>b\<bar> powr e))
      else NaN)"


text \<open>
  The functions of \<open>Math\<close> that the generators use. \<open>Math.log\<close> of zero is \<open>-Infinity\<close>
  and of a negative number NaN; \<open>Math.sqrt\<close> of a negative number is NaN; \<open>Math.ceil\<close>
  keeps an infinity and NaN; \<open>Math.max\<close> is NaN as soon as an argument is.
\<close>

fun js_log :: "jsnum \<Rightarrow> jsnum" where
  "js_log (Fin a) = (if a < 0 then NaN else if a = 0 then NInf else Fin (ln a))"
| "js_log PInf = PInf"
| "js_log NInf = NaN"
| "js_log NaN = NaN"

fun js_sqrt :: "jsnum \<Rightarrow> jsnum" where
  "js_sqrt (Fin a) = (if a < 0 then NaN else Fin (sqrt a))"
| "js_sqrt PInf = PInf"
| "js_sqrt NInf = NaN"
| "js_sqrt NaN = NaN"

fun js_cos :: "jsnum \<Rightarrow> jsnum" where
  "js_cos (Fin a) = Fin (cos a)"
| "js_cos _ = NaN"

fun js_ceil :: "jsnum \<Rightarrow> jsnum" where
  "js_ceil (Fin a) = Fin (of_int \<lceil>a\<rceil>)"
| "js_ceil x = x"

fun js_max :: "jsnum \<Rightarrow> jsnum \<Rightarrow> jsnum" where
  "js_max NaN _ = NaN"
| "js_max _ NaN = NaN"
| "js_max x y = (if js_lt x y then y else x)"

text \<open>\<open>Math.round\<close> of a finite number: the nearest integer, a tie going up.\<close>

definition js_round :: "real \<Rightarrow> real" where
  "js_round x = of_int \<lfloor>x + 1 / 2\<rfloor>"
section \<open>The analytical calculator (src/lib/queuing-calculations.ts)\<close>

datatype QueuingModel = MM1 | MMS | MG1 | MGS | GG1 | GGS

text \<open>
  \<open>QueuingInput\<close>: the fields carry the prefix \<open>qi_\<close>; an optional field that is absent
  is \<open>None\<close>. The fields hold finite numbers.
\<close>

record QueuingInput =
  qi_lambda :: real
  qi_mu :: real
  qi_s :: "real option"
  qi_sigma :: "real option"
  qi_ca :: "real option"
  qi_cs :: "real option"

record QueuingResults =
  rho :: jsnum
  stable :: bool
  Lq :: jsnum
  Wq :: jsnum
  W :: jsnum
  L :: jsnum
  error :: "string option"

definition invalid_result :: "string \<Rightarrow> QueuingResults" where
  "invalid_result msg =
     \<lparr>rho = Fin 0, stable = False, Lq = Fin 0, Wq = Fin 0, W = Fin 0, L = Fin 0,
      error = Some msg\<rparr>"

definition unstable_result :: "jsnum \<Rightarrow> QueuingResults" where
  "unstable_result r =
     \<lparr>rho = r, stable = False, Lq = PInf, Wq = PInf, W = PInf, L = PInf, error = None\<rparr>"

definition stable_result :: "jsnum \<Rightarrow> jsnum \<Rightarrow> jsnum \<Rightarrow> jsnum \<Rightarrow> jsnum \<Rightarrow> QueuingResults" where
  "stable_result r lq wq w l =
     \<lparr>rho = r, stable = True, Lq = lq, Wq = wq, W = w, L = l, error = None\<rparr>"

text \<open>\<open>factorial\<close>: the loop \<open>for (i = 2; i <= n; i++) result *= i\<close>.\<close>

function factorial_loop :: "real \<Rightarrow> real \<Rightarrow> real \<Rightarrow> real" where
  "factorial_loop n i result =
     (if i \<le> n then factorial_loop n (i + 1) (result * i) else result)"
  by pat_completeness auto
termination
  by (relation "measure (\<lambda>(n, i, result). nat (\<lfloor>n - i\<rfloor> + 1))") (auto, linarith)

declare factorial_loop.simps [simp del]

definition factorial :: "real \<Rightarrow> real" where
  "factorial n = (if n = 0 \<or> n = 1 then 1 else factorial_loop n 2 1)"

text \<open>\<open>erlangC\<close>: the loop \<open>for (k = 0; k < s; k++) denominator += a^k / k!\<close>.\<close>

function erlangC_loop :: "jsnum \<Rightarrow> real \<Rightarrow> nat \<Rightarrow> jsnum \<Rightarrow> jsnum" where
  "erlangC_loop a s k denominator =
     (if real k < s
      then erlangC_loop a s (Suc k)
             (js_add denominator (js_div (js_pow a (real k)) (Fin (factorial (real k)))))
      else denominator)"
  by pat_completeness auto
termination
  by (relation "measure (\<lambda>(a, s, k, d). nat \<lceil>s\<rceil> - k)") (auto, linarith)

declare erlangC_loop.simps [simp del]

definition erlangC :: "real \<Rightarrow> real \<Rightarrow> real \<Rightarrow> jsnum" where
  "erlangC lambda mu s =
     (let rho = js_div (Fin lambda) (js_mul (Fin s) (Fin mu)) in
      if js_ge rho (Fin 1) then Fin 1
      else
        let a = js_div (Fin lambda) (Fin mu);
            numerator0 = js_div (js_pow a s) (Fin (factorial s));
            numerator = js_div numerator0 (js_sub (Fin 1) rho);
            denominator0 = erlangC_loop a s 0 (Fin 0);
            denominator = js_add denominator0 numerator
        in js_div numerator denominator)"

definition calculateMM1 :: "QueuingInput \<Rightarrow> QueuingResults" where
  "calculateMM1 input =
     (let lambda = Fin (qi_lambda input); mu = Fin (qi_mu input) in
      if js_le mu (Fin 0) \<or> js_lt lambda (Fin 0)
      then invalid_result ''Invalid lambda or mu values''
      else
        let rho = js_div lambda mu in
        if js_ge rho (Fin 1) then unstable_result rho
        else
          let Lq = js_div (js_mul rho rho) (js_sub (Fin 1) rho);
              Wq = js_div Lq lambda;
              W = js_add Wq (js_div (Fin 1) mu);
              L = js_mul lambda W
          in stable_result rho Lq Wq W L)"

definition calculateMMS :: "QueuingInput \<Rightarrow> QueuingResults" where
  "calculateMMS input =
     (let lambda = Fin (qi_lambda input); mu = Fin (qi_mu input);
          sv = (case qi_s input of None \<Rightarrow> 1 | Some v \<Rightarrow> v); s = Fin sv in
      if js_le mu (Fin 0) \<or> js_lt lambda (Fin 0) \<or> js_le s (Fin 0)
      then invalid_result ''Invalid input values''
      else
        let rho = js_div lambda (js_mul s mu) in
        if js_ge rho (Fin 1) then unstable_result rho
        else
          let Pw = erlangC (qi_lambda input) (qi_mu input) sv;
              Wq = js_div Pw (js_sub (js_mul s mu) lambda);
              Lq = js_mul lambda Wq;
              W = js_add Wq (js_div (Fin 1) mu);
              L = js_mul lambda W
          in stable_result rho Lq Wq W L)"

definition calculateMG1 :: "QueuingInput \<Rightarrow> QueuingResults" where
  "calculateMG1 input =
     (let lambda = Fin (qi_lambda input); mu = Fin (qi_mu input);
          sigma = (case qi_sigma input of None \<Rightarrow> js_div (Fin 1) mu | Some v \<Rightarrow> Fin v) in
      if js_le mu (Fin 0) \<or> js_lt lambda (Fin 0) \<or> js_lt sigma (Fin 0)
      then invalid_result ''Invalid input values''
      else
        let rho = js_div lambda mu in
        if js_ge rho (Fin 1) then unstable_result rho
        else
          let lambda2 = js_mul lambda lambda;
              Lq = js_div (js_add (js_mul (js_mul lambda2 sigma) sigma) (js_mul rho rho))
                     (js_mul (Fin 2) (js_sub (Fin 1) rho));
              Wq = js_div Lq lambda;
              W = js_add Wq (js_div (Fin 1) mu);
              L = js_mul lambda W
          in stable_result rho Lq Wq W L)"

text \<open>
  \<open>calculateMGS\<close> and \<open>calculateGGS\<close> call \<open>calculateMMS({ lambda, mu, s })\<close>: an input
  with these three fields only.
\<close>

definition mms_input :: "real \<Rightarrow> real \<Rightarrow> real \<Rightarrow> QueuingInput" where
  "mms_input lambda mu s =
     \<lparr>qi_lambda = lambda, qi_mu = mu, qi_s = Some s, qi_sigma = None, qi_ca = None,
      qi_cs = None\<rparr>"

definition calculateMGS :: "QueuingInput \<Rightarrow> QueuingResults" where
  "calculateMGS input =
     (let lambda = Fin (qi_lambda input); mu = Fin (qi_mu input);
          sv = (case qi_s input of None \<Rightarrow> 1 | Some v \<Rightarrow> v); s = Fin sv;
          sigma = (case qi_sigma input of None \<Rightarrow> js_div (Fin 1) mu | Some v \<Rightarrow> Fin v) in
      if js_le mu (Fin 0) \<or> js_lt lambda (Fin 0) \<or> js_le s (Fin 0) \<or> js_lt sigma (Fin 0)
      then invalid_result ''Invalid input values''
      else
        let rho = js_div lambda (js_mul s mu) in
        if js_ge rho (Fin 1) then unstable_result rho
        else
          let mmsResult = calculateMMS (mms_input (qi_lambda input) (qi_mu input) sv) in
          if \<not> stable mmsResult then unstable_result rho
          else
            let Cs2 = js_mul (js_mul (js_mul sigma sigma) mu) mu;
                WqMMS = Wq mmsResult;
                Wq = js_div (js_mul WqMMS (js_add (Fin 1) Cs2)) (Fin 2);
                Lq = js_mul lambda Wq;
                W = js_add Wq (js_div (Fin 1) mu);
                L = js_mul lambda W
            in stable_result rho Lq Wq W L)"

definition calculateGG1 :: "QueuingInput \<Rightarrow> QueuingResults" where
  "calculateGG1 input =
     (let lambda = Fin (qi_lambda input); mu = Fin (qi_mu input);
          sigma = (case qi_sigma input of None \<Rightarrow> js_div (Fin 1) mu | Some v \<Rightarrow> Fin v);
          ca = (case qi_ca input of None \<Rightarrow> Fin 1 | Some v \<Rightarrow> Fin v);
          cs = (case qi_cs input of None \<Rightarrow> js_mul sigma mu | Some v \<Rightarrow> Fin v) in
      if js_le mu (Fin 0) \<or> js_lt lambda (Fin 0) \<or> js_lt sigma (Fin 0) \<or> js_lt ca (Fin 0)
         \<or> js_lt cs (Fin 0)
      then invalid_result ''Invalid input values''
      else
        let rho = js_div lambda mu in
        if js_ge rho (Fin 1) then unstable_result rho
        else
          let Ca2 = js_mul ca ca;
              Cs2 = js_mul cs cs;
              numerator = js_mul (js_mul (js_mul rho rho) (js_add (Fin 1) Ca2))
                            (js_add Cs2 (js_mul (js_mul rho rho) Ca2));
              denominator = js_mul (js_mul (Fin 2) (js_sub (Fin 1) rho))
                              (js_add (Fin 1) (js_mul (js_mul rho rho) Cs2));
              Lq = js_div numerator denominator;
              Wq = js_div Lq lambda;
              W = js_add Wq (js_div (Fin 1) mu);
              L = js_mul lambda W
          in stable_result rho Lq Wq W L)"

definition calculateGGS :: "QueuingInput \<Rightarrow> QueuingResults" where
  "calculateGGS input =
     (let lambda = Fin (qi_lambda input); mu = Fin (qi_mu input);
          sv = (case qi_s input of None \<Rightarrow> 1 | Some v \<Rightarrow> v); s = Fin sv;
          sigma = (case qi_sigma input of None \<Rightarrow> js_div (Fin 1) mu | Some v \<Rightarrow> Fin v);
          ca = (case qi_ca input of None \<Rightarrow> Fin 1 | Some v \<Rightarrow> Fin v);
          cs = (case qi_cs input of None \<Rightarrow> js_mul sigma mu | Some v \<Rightarrow> Fin v) in
      if js_le mu (Fin 0) \<or> js_lt lambda (Fin 0) \<or> js_le s (Fin 0) \<or> js_lt sigma (Fin 0)
         \<or> js_lt ca (Fin 0) \<or> js_lt cs (Fin 0)
      then invalid_result ''Invalid input values''
      else
        let rho = js_div lambda (js_mul s mu) in
        if js_ge rho (Fin 1) then unstable_result rho
        else
          let mmsResult = calculateMMS (mms_input (qi_lambda input) (qi_mu input) sv) in
          if \<not> stable mmsResult then unstable_result rho
          else
            let Ca2 = js_mul ca ca;
                Cs2 = js_mul cs cs;
                WqMMS = Wq mmsResult;
                Wq = js_div (js_mul WqMMS (js_add Ca2 Cs2)) (Fin 2);
                Lq = js_mul lambda Wq;
                W = js_add Wq (js_div (Fin 1) mu);
                L = js_mul lambda W
            in stable_result rho Lq Wq W L)"

text \<open>
  The dispatcher. Its \<open>default\<close> branch answers a tag outside the six of the type
  \<open>QueuingModel\<close>; the datatype has no such value.
\<close>

fun calculateQueuingMetrics :: "QueuingModel \<Rightarrow> QueuingInput \<Rightarrow> QueuingResults" where
  "calculateQueuingMetrics MM1 input = calculateMM1 input"
| "calculateQueuingMetrics MMS input = calculateMMS input"
| "calculateQueuingMetrics MG1 input = calculateMG1 input"
| "calculateQueuingMetrics MGS input = calculateMGS input"
| "calculateQueuingMetrics GG1 input = calculateGG1 input"
| "calculateQueuingMetrics GGS input = calculateGGS input"

subsection \<open>The vocabulary of the claims about the calculator\<close>

text \<open>
  The value a calculator works with when an optional field is absent: \<open>s = 1\<close>,
  \<open>sigma = 1 / mu\<close>, \<open>ca = 1\<close>, \<open>cs = sigma * mu\<close> (the defaults of the destructuring
  patterns).
\<close>

definition servers_of :: "QueuingInput \<Rightarrow> real" where
  "servers_of input = (case qi_s input of None \<Rightarrow> 1 | Some v \<Rightarrow> v)"

definition sigma_of :: "QueuingInput \<Rightarrow> real" where
  "sigma_of input = (case qi_sigma input of None \<Rightarrow> 1 / qi_mu input | Some v \<Rightarrow> v)"

definition ca_of :: "QueuingInput \<Rightarrow> real" where
  "ca_of input = (case qi_ca input of None \<Rightarrow> 1 | Some v \<Rightarrow> v)"

definition cs_of :: "QueuingInput \<Rightarrow> real" where
  "cs_of input = (case qi_cs input of None \<Rightarrow> sigma_of input * qi_mu input | Some v \<Rightarrow> v)"

text \<open>
  An input is valid for a model when it passes the first test of that model's function:
  \<open>mu <= 0\<close> and \<open>lambda < 0\<close> are rejected by all six, \<open>s <= 0\<close> by the three
  multi-server ones, \<open>sigma < 0\<close> by all but MM1 and MMS, \<open>ca < 0\<close> and \<open>cs < 0\<close> by
  GG1 and GGS. The utilisation is \<open>lambda / mu\<close> for one server and \<open>lambda / (s * mu)\<close>
  for several.
\<close>

definition multi_server :: "QueuingModel \<Rightarrow> bool" where
  "multi_server m = (m = MMS \<or> m = MGS \<or> m = GGS)"

definition valid_input :: "QueuingModel \<Rightarrow> QueuingInput \<Rightarrow> bool" where
  "valid_input m input =
     (0 < qi_mu input \<and> 0 \<le> qi_lambda input
      \<and> (multi_server m \<longrightarrow> 0 < servers_of input)
      \<and> (m \<noteq> MM1 \<and> m \<noteq> MMS \<longrightarrow> 0 \<le> sigma_of input)
      \<and> (m = GG1 \<or> m = GGS \<longrightarrow> 0 \<le> ca_of input \<and> 0 \<le> cs_of input))"

definition utilisation :: "QueuingModel \<Rightarrow> QueuingInput \<Rightarrow> real" where
  "utilisation m input =
     (if multi_server m then qi_lambda input / (servers_of input * qi_mu input)
      else qi_lambda input / qi_mu input)"

text \<open>
  The last two lines of every stable branch, \<open>W = Wq + 1 / mu\<close> and \<open>L = lambda * W\<close>,
  and the queue lengths that \<open>calculateMG1\<close> and \<open>calculateGG1\<close> compute before them.
\<close>

definition finish :: "real \<Rightarrow> real \<Rightarrow> jsnum \<Rightarrow> jsnum \<Rightarrow> jsnum \<Rightarrow> QueuingResults" where
  "finish lambda mu r lq wq =
     stable_result r lq wq (js_add wq (js_div (Fin 1) (Fin mu)))
       (js_mul (Fin lambda) (js_add wq (js_div (Fin 1) (Fin mu))))"

definition mg1_Lq :: "QueuingInput \<Rightarrow> real" where
  "mg1_Lq input =
     (qi_lambda input * qi_lambda input * sigma_of input * sigma_of input
      + qi_lambda input / qi_mu input * (qi_lambda input / qi_mu input))
     / (2 * (1 - qi_lambda input / qi_mu input))"

definition gg1_Lq :: "QueuingInput \<Rightarrow> real" where
  "gg1_Lq input =
     (let r = qi_lambda input / qi_mu input;
          Ca2 = ca_of input * ca_of input;
          Cs2 = cs_of input * cs_of input
      in r * r * (1 + Ca2) * (Cs2 + r * r * Ca2) / (2 * (1 - r) * (1 + r * r * Cs2)))"

text \<open>
  Little's law as the specification tests it: \<open>Wq\<close>, \<open>W\<close> and \<open>L\<close> are numbers with
  \<open>W = Wq + 1 / mu\<close> and \<open>L = lambda * W\<close> up to \<open>1e-9\<close>. A result that is NaN or
  infinite does not satisfy it.
\<close>

definition littles_law :: "real \<Rightarrow> real \<Rightarrow> QueuingResults \<Rightarrow> bool" where
  "littles_law lambda mu r =
     (case (Wq r, W r, L r) of
        (Fin wq, Fin w, Fin l) \<Rightarrow>
          \<bar>w - (wq + 1 / mu)\<bar> \<le> 1 / 10 ^ 9 \<and> \<bar>l - lambda * w\<bar> \<le> 1 / 10 ^ 9
      | _ \<Rightarrow> False)"

text \<open>An input with \<open>lambda\<close> and \<open>mu\<close> only.\<close>

definition example_input :: "real \<Rightarrow> real \<Rightarrow> QueuingInput" where
  "example_input lambda mu =
     \<lparr>qi_lambda = lambda, qi_mu = mu, qi_s = None, qi_sigma = None, qi_ca = None, qi_cs = None\<rparr>"
section \<open>calculateMM1 and calculateMMS in double precision\<close>

text \<open>
  Whether two formulas return the same number, bit for bit, depends on the rounding of
  each operation, which the calculator above leaves out. This section gives \<open>factorial\<close>,
  \<open>erlangC\<close>, \<open>calculateMM1\<close> and \<open>calculateMMS\<close> a second time, with the result of every
  arithmetic operation rounded to the nearest binary64 number: 53 significant bits, a
  tie going to the even neighbour, the smallest spacing \<open>2^-1074\<close>, and a result that
  rounds to \<open>2^1024\<close> or beyond being an infinity. The sign of zero is not modelled, and
  \<open>Math.pow\<close> is taken correctly rounded (it is exact at the exponents 0 and 1). The
  fields of the input are taken to be binary64 numbers.
\<close>

text \<open>The nearest integer to \<open>x\<close>, a tie going to the even one.\<close>

definition round_even :: "real \<Rightarrow> int" where
  "round_even x =
     (let f = \<lfloor>x\<rfloor>; d = x - of_int f
      in if d < 1 / 2 then f else if 1 / 2 < d then f + 1 else if even f then f else f + 1)"

text \<open>
  The exponent of the last place of a positive \<open>x\<close>: \<open>scale_down\<close> and \<open>scale_up\<close> bring
  \<open>m = x / 2^e\<close> into \<open>[2^52, 2^53)\<close>, and \<open>scale_up\<close> stops at \<open>e = -1074\<close>.
\<close>

function scale_down :: "real \<Rightarrow> int \<Rightarrow> real \<times> int" where
  "scale_down m e = (if 2 ^ 53 \<le> m then scale_down (m / 2) (e + 1) else (m, e))"
  by pat_completeness auto
termination
proof (relation "measure (\<lambda>(m, e). nat \<lfloor>m\<rfloor>)")
  show "wf (measure (\<lambda>(m, e). nat \<lfloor>m\<rfloor>))" by simp
next
  fix m :: real and e :: int
  assume m: "2 ^ 53 \<le> m"
  have "(2::real) \<le> 2 ^ 53" by simp
  then have "2 \<le> m" using m by linarith
  then have "m / 2 \<le> m - 1" by simp
  then have "\<lfloor>m / 2\<rfloor> \<le> \<lfloor>m - 1\<rfloor>" by (rule floor_mono)
  then have "\<lfloor>m / 2\<rfloor> < \<lfloor>m\<rfloor>" by simp
  moreover have "0 < \<lfloor>m\<rfloor>" using \<open>2 \<le> m\<close> by simp
  ultimately show "((m / 2, e + 1), (m, e)) \<in> measure (\<lambda>(m, e). nat \<lfloor>m\<rfloor>)" by simp
qed

declare scale_down.simps [simp del]

function scale_up :: "real \<Rightarrow> int \<Rightarrow> real \<times> int" where
  "scale_up m e = (if m < 2 ^ 52 \<and> - 1074 < e then scale_up (2 * m) (e - 1) else (m, e))"
  by pat_completeness auto
termination
  by (relation "measure (\<lambda>(m, e). nat (e + 1074))") simp_all

declare scale_up.simps [simp del]

text \<open>The nearest number with 53 significant bits, the exponent not bounded above.\<close>

definition nearest :: "real \<Rightarrow> real" where
  "nearest x =
     (if x = 0 then 0
      else
        let (m0, e0) = scale_down \<bar>x\<bar> 0;
            (m, e) = scale_up m0 e0;
            r = of_int (round_even m) * (if 0 \<le> e then 2 ^ nat e else 1 / 2 ^ nat (- e))
        in if x < 0 then - r else r)"

definition dbl :: "real \<Rightarrow> jsnum" where
  "dbl x =
     (let r = nearest x
      in if 2 ^ 1024 \<le> r then PInf else if r \<le> - (2 ^ 1024) then NInf else Fin r)"

fun rnd :: "jsnum \<Rightarrow> jsnum" where
  "rnd (Fin x) = dbl x"
| "rnd x = x"

definition dbl_add :: "jsnum \<Rightarrow> jsnum \<Rightarrow> jsnum" where
  "dbl_add x y = rnd (js_add x y)"

definition dbl_sub :: "jsnum \<Rightarrow> jsnum \<Rightarrow> jsnum" where
  "dbl_sub x y = rnd (js_sub x y)"

definition dbl_mul :: "jsnum \<Rightarrow> jsnum \<Rightarrow> jsnum" where
  "dbl_mul x y = rnd (js_mul x y)"

definition dbl_div :: "jsnum \<Rightarrow> jsnum \<Rightarrow> jsnum" where
  "dbl_div x y = rnd (js_div x y)"

definition dbl_pow :: "jsnum \<Rightarrow> real \<Rightarrow> jsnum" where
  "dbl_pow x e = rnd (js_pow x e)"

text \<open>\<open>factorial\<close>; the counter \<open>i\<close> is a whole number and is not rounded.\<close>

function factorial_loop_dbl :: "real \<Rightarrow> real \<Rightarrow> jsnum \<Rightarrow> jsnum" where
  "factorial_loop_dbl n i result =
     (if i \<le> n then factorial_loop_dbl n (i + 1) (dbl_mul result (Fin i)) else result)"
  by pat_completeness auto
termination
  by (relation "measure (\<lambda>(n, i, result). nat (\<lfloor>n - i\<rfloor> + 1))") (auto, linarith)

declare factorial_loop_dbl.simps [simp del]

definition factorial_dbl :: "real \<Rightarrow> jsnum" where
  "factorial_dbl n = (if n = 0 \<or> n = 1 then Fin 1 else factorial_loop_dbl n 2 (Fin 1))"

function erlangC_loop_dbl :: "jsnum \<Rightarrow> real \<Rightarrow> nat \<Rightarrow> jsnum \<Rightarrow> jsnum" where
  "erlangC_loop_dbl a s k denominator =
     (if real k < s
      then erlangC_loop_dbl a s (Suc k)
             (dbl_add denominator (dbl_div (dbl_pow a (real k)) (factorial_dbl (real k))))
      else denominator)"
  by pat_completeness auto
termination
  by (relation "measure (\<lambda>(a, s, k, d). nat \<lceil>s\<rceil> - k)") (auto, linarith)

declare erlangC_loop_dbl.simps [simp del]

definition erlangC_dbl :: "real \<Rightarrow> real \<Rightarrow> real \<Rightarrow> jsnum" where
  "erlangC_dbl lambda mu s =
     (let rho = dbl_div (Fin lambda) (dbl_mul (Fin s) (Fin mu)) in
      if js_ge rho (Fin 1) then Fin 1
      else
        let a = dbl_div (Fin lambda) (Fin mu);
            numerator0 = dbl_div (dbl_pow a s) (factorial_dbl s);
            numerator = dbl_div numerator0 (dbl_sub (Fin 1) rho);
            denominator0 = erlangC_loop_dbl a s 0 (Fin 0);
            denominator = dbl_add denominator0 numerator
        in dbl_div numerator denominator)"

definition calculateMM1_dbl :: "QueuingInput \<Rightarrow> QueuingResults" where
  "calculateMM1_dbl input =
     (let lambda = Fin (qi_lambda input); mu = Fin (qi_mu input) in
      if js_le mu (Fin 0) \<or> js_lt lambda (Fin 0)
      then invalid_result ''Invalid lambda or mu values''
      else
        let rho = dbl_div lambda mu in
        if js_ge rho (Fin 1) then unstable_result rho
        else
          let Lq = dbl_div (dbl_mul rho rho) (dbl_sub (Fin 1) rho);
              Wq = dbl_div Lq lambda;
              W = dbl_add Wq (dbl_div (Fin 1) mu);
              L = dbl_mul lambda W
          in stable_result rho Lq Wq W L)"

definition calculateMMS_dbl :: "QueuingInput \<Rightarrow> QueuingResults" where
  "calculateMMS_dbl input =
     (let lambda = Fin (qi_lambda input); mu = Fin (qi_mu input);
          sv = (case qi_s input of None \<Rightarrow> 1 | Some v \<Rightarrow> v); s = Fin sv in
      if js_le mu (Fin 0) \<or> js_lt lambda (Fin 0) \<or> js_le s (Fin 0)
      then invalid_result ''Invalid input values''
      else
        let rho = dbl_div lambda (dbl_mul s mu) in
        if js_ge rho (Fin 1) then unstable_result rho
        else
          let Pw = erlangC_dbl (qi_lambda input) (qi_mu input) sv;
              Wq = dbl_div Pw (dbl_sub (dbl_mul s mu) lambda);
              Lq = dbl_mul lambda Wq;
              W = dbl_add Wq (dbl_div (Fin 1) mu);
              L = dbl_mul lambda W
          in stable_result rho Lq Wq W L)"


section \<open>The generators of the simulation (src/unnamed/part_001, lines 42 to 172)\<close>

text \<open>
  \<open>randomUniform()\<close> is \<open>Math.random()\<close>, a number in \<open>[0, 1)\<close>. The draws are
  arguments of the model: a function that draws once per customer takes the list of its
  draws, in the order in which they are made.
\<close>

definition uniform_draw :: "real \<Rightarrow> bool" where
  "uniform_draw u = (0 \<le> u \<and> u < 1)"

subsection \<open>buildPoissonCDF\<close>

record PoissonCDF =
  cpCum :: "real list"
  cpLookup :: "real list"
  noBetweenArrivals :: "nat list"

definition threshold :: real where
  "threshold = 99999 / 100000"

definition maxK :: nat where
  "maxK = 500"

text \<open>
  The \<open>while (true)\<close> loop. Its state is \<open>currentP\<close>, \<open>cum\<close>, \<open>k\<close> and the two arrays;
  it leaves through the \<open>break\<close>, at the latest when \<open>k\<close> reaches \<open>maxK\<close>.
\<close>

function poisson_loop ::
  "real \<Rightarrow> real \<Rightarrow> real \<Rightarrow> nat \<Rightarrow> real list \<Rightarrow> nat list \<Rightarrow> real list \<times> nat list" where
  "poisson_loop lambda currentP cum k cs ns =
     (let cum' = cum + currentP;
          cs' = cs @ [js_round (cum' * 100000) / 100000];
          ns' = ns @ [k]
      in if threshold \<le> cum' \<or> maxK \<le> k then (cs', ns')
         else poisson_loop lambda (currentP * (lambda / real (k + 1))) cum' (k + 1) cs' ns')"
  by pat_completeness auto
termination
  by (relation "measure (\<lambda>(lambda, currentP, cum, k, cs, ns). maxK - k)") auto

declare poisson_loop.simps [simp del]

definition buildPoissonCDF :: "real \<Rightarrow> PoissonCDF" where
  "buildPoissonCDF lambda =
     (let p0 = exp (- lambda);
          (cs, ns) = poisson_loop lambda p0 0 0 [] [];
          cs' = (if 0 < length cs then cs[length cs - 1 := min (cs ! (length cs - 1)) 1] else cs)
      in \<lparr>cpCum = cs', cpLookup = 0 # butlast cs', noBetweenArrivals = ns\<rparr>)"

subsection \<open>generateInterArrivals and cumSum\<close>

text \<open>
  The inner loop looks for the first \<open>i\<close> with \<open>cpLookup[i] <= r <= cpCum[i]\<close>; when there
  is none the last index is taken. One draw is made for each index from 1 on.
\<close>

fun find_range :: "real list \<Rightarrow> real list \<Rightarrow> real \<Rightarrow> nat \<Rightarrow> nat option" where
  "find_range [] ls r i = None"
| "find_range (c # cs) [] r i = None"
| "find_range (c # cs) (l # ls) r i =
     (if l \<le> r \<and> r \<le> c then Some i else find_range cs ls r (Suc i))"

definition generateInterArrivals :: "real list \<Rightarrow> real list \<Rightarrow> real list \<Rightarrow> nat list" where
  "generateInterArrivals cs ls rs =
     0 # map (\<lambda>r. case find_range cs ls r 0 of Some i \<Rightarrow> i | None \<Rightarrow> length cs - 1) rs"

text \<open>\<open>cumSum\<close>: the running \<open>sum\<close> is the first argument of the loop.\<close>

fun cumSum_from :: "nat \<Rightarrow> nat list \<Rightarrow> nat list" where
  "cumSum_from acc [] = []"
| "cumSum_from acc (v # arr) = (acc + v) # cumSum_from (acc + v) arr"

definition cumSum :: "nat list \<Rightarrow> nat list" where
  "cumSum arr = cumSum_from 0 arr"

subsection \<open>The service time generators\<close>

text \<open>
  Each generator maps its draws to one service time per customer: the function given to
  \<open>Array.from\<close> is applied to the draws of each customer. The exponential and the uniform
  generator draw once per customer, the normal one twice (\<open>r1\<close>, then \<open>r2\<close>).
\<close>

definition exponential_time :: "real \<Rightarrow> real \<Rightarrow> jsnum" where
  "exponential_time mu u = js_max (Fin 1) (js_ceil (js_mul (js_neg (Fin mu)) (js_log (Fin u))))"

definition generateServiceTimes :: "real \<Rightarrow> real list \<Rightarrow> jsnum list" where
  "generateServiceTimes mu us = map (exponential_time mu) us"

definition uniform_time :: "real \<Rightarrow> real \<Rightarrow> real \<Rightarrow> jsnum" where
  "uniform_time a b u =
     js_max (Fin 1) (js_ceil (js_add (Fin a) (js_mul (js_sub (Fin b) (Fin a)) (Fin u))))"

definition generateUniformServiceTimes :: "real \<Rightarrow> real \<Rightarrow> real list \<Rightarrow> jsnum list" where
  "generateUniformServiceTimes a b us = map (uniform_time a b) us"

definition normal_time :: "real \<Rightarrow> real \<Rightarrow> real \<times> real \<Rightarrow> jsnum" where
  "normal_time mu sigma draws =
     (let r1 = fst draws;
          r2 = snd draws;
          z = js_mul
                (js_sqrt (js_mul (Fin (- 2)) (js_log (Fin (if r1 = 0 then 1 / 10000 else r1)))))
                (js_cos (js_mul (js_mul (Fin 2) (Fin pi)) (Fin r2)))
      in js_max (Fin 1) (js_ceil (js_add (Fin mu) (js_mul (Fin sigma) z))))"

definition generateNormalServiceTimes :: "real \<Rightarrow> real \<Rightarrow> (real \<times> real) list \<Rightarrow> jsnum list" where
  "generateNormalServiceTimes mu sigma rs = map (normal_time mu sigma) rs"

text \<open>A service time as the specification describes it: one integer, at least 1.\<close>

definition service_time :: "jsnum \<Rightarrow> bool" where
  "service_time x = (case x of Fin v \<Rightarrow> is_int v \<and> 1 \<le> v | _ \<Rightarrow> False)"

section \<open>The schedulers (src/unnamed/part_001, lines 174 to 821)\<close>

text \<open>
  The four simulations first build the arrival table and draw the arrival times, the
  service times and the priorities; the event loop then works on these arrays alone.
  The model takes the arrays as arguments: \<open>arrivalTimes\<close>, \<open>serviceTimes\<close> and
  \<open>priorities\<close>, integers indexed by the customer. Times are integers.

  \<open>mg1Simulation\<close> repeats the loop and the metrics of \<open>mm1Simulation\<close> token for token
  (lines 515 to 627 against 186 to 299), and \<open>mgsSSimulation\<close> those of \<open>mmsSSimulation\<close>
  (lines 643 to 820 against 315 to 500); they differ in the generator of the service
  times only, which is outside the loop.
\<close>

subsection \<open>Labels\<close>

text \<open>The template strings \<open>`C${i + 1}`\<close> and \<open>`S${sIdx + 1}`\<close>: a letter and a decimal number.\<close>

definition digit :: "nat \<Rightarrow> char" where
  "digit d = char_of (48 + d)"

fun decimal :: "nat \<Rightarrow> string" where
  "decimal n = (if n < 10 then [digit n] else decimal (n div 10) @ [digit (n mod 10)])"

declare decimal.simps [simp del]

definition customer_label :: "nat \<Rightarrow> string" where
  "customer_label i = CHR ''C'' # decimal (i + 1)"

definition server_label :: "nat \<Rightarrow> string" where
  "server_label sIdx = CHR ''S'' # decimal (sIdx + 1)"

subsection \<open>Chunks and results\<close>

text \<open>
  \<open>ServiceChunk\<close>, its fields prefixed with \<open>ch_\<close>. \<open>SimulationRow\<close> without the four
  columns copied from the arrival table (\<open>cp\<close>, \<open>cpLookup\<close>, \<open>noBetweenArrivals\<close>,
  \<open>interArrivals\<close>), which the loop never reads.
\<close>

record ServiceChunk =
  ch_label :: string
  ch_start :: int
  ch_end :: int
  ch_server :: "string option"

record SimulationRow =
  observation :: nat
  arrivalTime :: int
  serviceTime :: int
  priority :: int
  row_serviceStart :: int
  row_serviceEnd :: int
  turnaroundTime :: int
  waitTime :: int
  responseTime :: int
  server :: "string option"

record SimulationAverages =
  avgTurnaround :: jsnum
  avgWait :: jsnum
  avgResponse :: jsnum
  avgService :: jsnum
  serverUtilization :: jsnum
  totalCustomers :: nat

record SimulationResult =
  rows :: "SimulationRow list"
  res_chunks :: "ServiceChunk list"
  averages :: SimulationAverages

text \<open>The mean \<open>xs.reduce((a, b) => a + b, 0) / n\<close>.\<close>

definition mean :: "int list \<Rightarrow> nat \<Rightarrow> jsnum" where
  "mean xs n = js_div (Fin (of_int (sum_list xs))) (Fin (of_nat n))"

text \<open>
  The selection in priority mode,
  \<open>pool.reduce((best, cur) => priorities[cur] < priorities[best] ? cur : best, pool[0])\<close>,
  for a pool whose first element is \<open>w\<close>.
\<close>

definition pick_priority :: "int list \<Rightarrow> nat \<Rightarrow> nat list \<Rightarrow> nat" where
  "pick_priority priorities w pool =
     foldl (\<lambda>best cur. if priorities ! cur < priorities ! best then cur else best) w pool"

subsection \<open>The single-server loop (mm1Simulation, mg1Simulation)\<close>

record sim_state =
  currentTime :: int
  remainingTimes :: "int list"
  servedMask :: "bool list"
  chunks :: "ServiceChunk list"

record mm1_state = sim_state +
  serviceStarts :: "int list"
  serviceEnds :: "int list"

text \<open>
  \<open>nextArr\<close>: the least arrival time of a customer not yet served; \<open>None\<close> stands for
  the initial \<open>Infinity\<close>.
\<close>

definition nextArr :: "int list \<Rightarrow> bool list \<Rightarrow> int option" where
  "nextArr arrivalTimes served =
     foldl (\<lambda>acc i.
              if \<not> served ! i \<and> (case acc of None \<Rightarrow> True | Some a \<Rightarrow> arrivalTimes ! i < a)
              then Some (arrivalTimes ! i) else acc)
       None [0..<length arrivalTimes]"

text \<open>
  The choice from a pool that is not empty: the \<open>reduce\<close> from \<open>waitingPool[0]\<close> in
  priority mode, \<open>Math.min(...waitingPool)\<close> otherwise.
\<close>

definition select_waiting :: "int list \<Rightarrow> bool \<Rightarrow> nat list \<Rightarrow> nat" where
  "select_waiting priorities usePriority pool =
     (if usePriority then pick_priority priorities (hd pool) pool else Min (set pool))"

text \<open>The customers that have arrived and are not served, in the order of their index.\<close>

definition waiting :: "int list \<Rightarrow> mm1_state \<Rightarrow> nat list" where
  "waiting arrivalTimes st =
     filter (\<lambda>i. \<not> servedMask st ! i \<and> arrivalTimes ! i \<le> currentTime st)
       [0..<length arrivalTimes]"

text \<open>
  \<open>timeToEvent\<close>: in priority mode the time until the next arrival of a customer of
  strictly higher priority than the chosen one, if there is one; the remaining work of the
  chosen customer otherwise.
\<close>

definition timeToEvent :: "int list \<Rightarrow> int list \<Rightarrow> bool \<Rightarrow> mm1_state \<Rightarrow> nat \<Rightarrow> int" where
  "timeToEvent arrivalTimes priorities usePriority st chosenIdx =
     (let interruptors = filter (\<lambda>i. currentTime st < arrivalTimes ! i
                                      \<and> priorities ! i < priorities ! chosenIdx)
                           [0..<length arrivalTimes]
      in if interruptors \<noteq> [] \<and> usePriority
         then Min (set (map (\<lambda>i. arrivalTimes ! i) interruptors)) - currentTime st
         else remainingTimes st ! chosenIdx)"

text \<open>
  The rest of the body for the chosen customer and the duration of the chunk: stamp
  \<open>serviceStarts\<close> at the first selection, advance the clock, take the work off, push the
  chunk, and stamp \<open>serviceEnds\<close> and \<open>servedMask\<close> when no work is left.
\<close>

definition serve :: "nat \<Rightarrow> int \<Rightarrow> mm1_state \<Rightarrow> mm1_state" where
  "serve chosenIdx workDuration st =
     (let t = currentTime st;
          t' = t + workDuration;
          remaining = (remainingTimes st)
                        [chosenIdx := remainingTimes st ! chosenIdx - workDuration];
          finished = (remaining ! chosenIdx = 0)
      in st\<lparr>currentTime := t',
            remainingTimes := remaining,
            servedMask := (if finished then (servedMask st)[chosenIdx := True]
                           else servedMask st),
            chunks := chunks st @
              [\<lparr>ch_label = customer_label chosenIdx, ch_start = t, ch_end = t',
                ch_server = None\<rparr>],
            serviceStarts := (if serviceStarts st ! chosenIdx = - 1
                              then (serviceStarts st)[chosenIdx := t] else serviceStarts st),
            serviceEnds := (if finished then (serviceEnds st)[chosenIdx := t']
                            else serviceEnds st)\<rparr>)"

text \<open>
  One iteration of the \<open>while\<close> loop. With an empty waiting pool the clock jumps to
  \<open>nextArr\<close>. The loop runs an iteration only while a customer is unserved, so \<open>nextArr\<close>
  is a number there; the model answers \<open>None\<close> for a clock that would become \<open>Infinity\<close>.
\<close>

definition mm1_step :: "int list \<Rightarrow> int list \<Rightarrow> bool \<Rightarrow> mm1_state \<Rightarrow> mm1_state option" where
  "mm1_step arrivalTimes priorities usePriority st =
     (let waitingPool = waiting arrivalTimes st
      in if waitingPool = []
         then (case nextArr arrivalTimes (servedMask st) of
                 None \<Rightarrow> None
               | Some a \<Rightarrow> Some (st\<lparr>currentTime := a\<rparr>))
         else
           let chosenIdx = select_waiting priorities usePriority waitingPool;
               workDuration = min (remainingTimes st ! chosenIdx)
                                (timeToEvent arrivalTimes priorities usePriority st chosenIdx)
           in Some (serve chosenIdx workDuration st))"

partial_function (option) mm1_loop ::
  "int list \<Rightarrow> int list \<Rightarrow> bool \<Rightarrow> mm1_state \<Rightarrow> mm1_state option" where
  "mm1_loop arrivalTimes priorities usePriority st =
     (if list_all (\<lambda>b. b) (servedMask st) then Some st
      else case mm1_step arrivalTimes priorities usePriority st of
             None \<Rightarrow> None
           | Some st' \<Rightarrow> mm1_loop arrivalTimes priorities usePriority st')"

declare mm1_loop.simps [code]

definition mm1_init :: "int list \<Rightarrow> int list \<Rightarrow> mm1_state" where
  "mm1_init arrivalTimes serviceTimes =
     (let n = length arrivalTimes
      in \<lparr>currentTime = 0, remainingTimes = serviceTimes, servedMask = replicate n False,
          chunks = [], serviceStarts = replicate n (- 1), serviceEnds = replicate n 0\<rparr>)"

text \<open>
  The utilisation of the single server. \<open>Math.max\<close> of no argument is \<open>-Infinity\<close> and
  \<open>Math.min\<close> of none \<open>Infinity\<close>, so with no customer \<open>totalTime\<close> is not positive.
\<close>

definition mm1_utilization :: "int list \<Rightarrow> int list \<Rightarrow> int list \<Rightarrow> jsnum" where
  "mm1_utilization serviceTimes starts ends =
     (let totalBusy = sum_list serviceTimes in
      if ends = [] \<or> starts = [] then Fin 0
      else
        let totalTime = Max (set ends) - Min (set starts) in
        if 0 < totalTime
        then js_mul (js_div (Fin (of_int totalBusy)) (Fin (of_int totalTime))) (Fin 100)
        else Fin 0)"

definition make_rows ::
  "int list \<Rightarrow> int list \<Rightarrow> int list \<Rightarrow> int list \<Rightarrow> int list \<Rightarrow> (nat \<Rightarrow> string option)
   \<Rightarrow> SimulationRow list" where
  "make_rows arrivalTimes serviceTimes priorities starts ends srv =
     map (\<lambda>i. \<lparr>observation = i + 1,
                arrivalTime = arrivalTimes ! i,
                serviceTime = serviceTimes ! i,
                priority = priorities ! i,
                row_serviceStart = starts ! i,
                row_serviceEnd = ends ! i,
                turnaroundTime = ends ! i - arrivalTimes ! i,
                waitTime = ends ! i - arrivalTimes ! i - serviceTimes ! i,
                responseTime = starts ! i - arrivalTimes ! i,
                server = srv i\<rparr>) [0..<length arrivalTimes]"

definition make_averages :: "SimulationRow list \<Rightarrow> int list \<Rightarrow> jsnum \<Rightarrow> SimulationAverages" where
  "make_averages rs serviceTimes utilization =
     (let n = length rs
      in \<lparr>avgTurnaround = mean (map turnaroundTime rs) n,
          avgWait = mean (map waitTime rs) n,
          avgResponse = mean (map responseTime rs) n,
          avgService = mean serviceTimes n,
          serverUtilization = utilization,
          totalCustomers = n\<rparr>)"

definition mm1Simulation ::
  "int list \<Rightarrow> int list \<Rightarrow> int list \<Rightarrow> bool \<Rightarrow> SimulationResult option" where
  "mm1Simulation arrivalTimes serviceTimes priorities usePriority =
     (case mm1_loop arrivalTimes priorities usePriority (mm1_init arrivalTimes serviceTimes) of
        None \<Rightarrow> None
      | Some st \<Rightarrow>
          let rs = make_rows arrivalTimes serviceTimes priorities (serviceStarts st)
                     (serviceEnds st) (\<lambda>i. None);
              utilization = mm1_utilization serviceTimes (serviceStarts st) (serviceEnds st)
          in Some \<lparr>rows = rs, res_chunks = chunks st,
                   averages = make_averages rs serviceTimes utilization\<rparr>)"

definition mg1Simulation ::
  "int list \<Rightarrow> int list \<Rightarrow> int list \<Rightarrow> bool \<Rightarrow> SimulationResult option" where
  "mg1Simulation = mm1Simulation"

subsection \<open>The multi-server loop (mmsSSimulation, mgsSSimulation)\<close>

record mms_state = sim_state +
  serviceStart :: "int list"
  serviceEnd :: "int list"
  serverAssigned :: "string list"
  serverOccupancy :: "nat option list"
  lastChunkStart :: "int list"

text \<open>
  Steps 2, 3 and 5 are loops over the servers that also change the local array
  \<open>waitingPool\<close>; each is a function of the server index on the pair of the pool and the
  state, folded over \<open>0, ..., servers - 1\<close>.

  \<open>install\<close> is what steps 2 and 3 both do to put customer \<open>c\<close> on server \<open>sIdx\<close>.
  \<open>waitingPool.splice(waitingPool.indexOf(c), 1)\<close> removes the first occurrence of \<open>c\<close>,
  which is in the pool whenever this is reached.
\<close>

definition install :: "nat \<Rightarrow> nat \<Rightarrow> mms_state \<Rightarrow> mms_state" where
  "install sIdx c st =
     st\<lparr>serverOccupancy := (serverOccupancy st)[sIdx := Some c],
        serviceStart := (if serviceStart st ! c = - 1
                         then (serviceStart st)[c := currentTime st] else serviceStart st),
        serverAssigned := (serverAssigned st)[c := server_label sIdx],
        lastChunkStart := (lastChunkStart st)[c := currentTime st]\<rparr>"

definition assign_idle ::
  "int list \<Rightarrow> bool \<Rightarrow> nat \<Rightarrow> nat list \<times> mms_state \<Rightarrow> nat list \<times> mms_state" where
  "assign_idle priorities usePriority sIdx ps =
     (let pool = fst ps; st = snd ps in
      if serverOccupancy st ! sIdx = None \<and> pool \<noteq> []
      then
        let chosen = select_waiting priorities usePriority pool
        in (remove1 chosen pool, install sIdx chosen st)
      else ps)"

definition preempt :: "int list \<Rightarrow> nat \<Rightarrow> nat list \<times> mms_state \<Rightarrow> nat list \<times> mms_state" where
  "preempt priorities sIdx ps =
     (let pool = fst ps; st = snd ps in
      case serverOccupancy st ! sIdx of
        None \<Rightarrow> ps
      | Some currCust \<Rightarrow>
          if pool \<noteq> []
          then
            let bestInPool = pick_priority priorities (hd pool) pool in
            if priorities ! bestInPool < priorities ! currCust
            then
              let duration = currentTime st - lastChunkStart st ! currCust;
                  st1 = (if 0 < duration
                         then st\<lparr>chunks := chunks st @
                                  [\<lparr>ch_label = customer_label currCust,
                                    ch_start = lastChunkStart st ! currCust,
                                    ch_end = currentTime st,
                                    ch_server = Some (server_label sIdx)\<rparr>]\<rparr>
                         else st)
              in (remove1 bestInPool (pool @ [currCust]), install sIdx bestInPool st1)
            else ps
          else ps)"

text \<open>Step 4: the first arrival after the clock, then the completion time of each busy server.\<close>

definition possibleEvents :: "int list \<Rightarrow> mms_state \<Rightarrow> int list" where
  "possibleEvents arrivalTimes st =
     (case find (\<lambda>a. currentTime st < a) arrivalTimes of None \<Rightarrow> [] | Some a \<Rightarrow> [a])
     @ concat (map (\<lambda>occ. case occ of None \<Rightarrow> []
                                    | Some cIdx \<Rightarrow> [currentTime st + remainingTimes st ! cIdx])
                 (serverOccupancy st))"

text \<open>Step 5 for one server; the clock is still the old one while the servers are visited.\<close>

definition execute_work :: "int \<Rightarrow> nat \<Rightarrow> mms_state \<Rightarrow> mms_state" where
  "execute_work nextEventTime sIdx st =
     (case serverOccupancy st ! sIdx of
        None \<Rightarrow> st
      | Some cIdx \<Rightarrow>
          let timeJump = nextEventTime - currentTime st;
              remaining = (remainingTimes st)[cIdx := remainingTimes st ! cIdx - timeJump]
          in if remaining ! cIdx \<le> 0
             then st\<lparr>remainingTimes := remaining,
                     chunks := chunks st @
                       [\<lparr>ch_label = customer_label cIdx, ch_start = lastChunkStart st ! cIdx,
                         ch_end = nextEventTime, ch_server = Some (server_label sIdx)\<rparr>],
                     serviceEnd := (serviceEnd st)[cIdx := nextEventTime],
                     servedMask := (servedMask st)[cIdx := True],
                     serverOccupancy := (serverOccupancy st)[sIdx := None]\<rparr>
             else st\<lparr>remainingTimes := remaining\<rparr>)"

text \<open>
  One iteration: \<open>Inl\<close> is the state at the \<open>break\<close> of step 4 (no event left), \<open>Inr\<close> the
  state at the end of the body.
\<close>

definition mms_step ::
  "int list \<Rightarrow> int list \<Rightarrow> nat \<Rightarrow> bool \<Rightarrow> mms_state \<Rightarrow> mms_state + mms_state" where
  "mms_step arrivalTimes priorities servers usePriority st =
     (let n = length arrivalTimes;
          waitingPool = filter (\<lambda>i. \<not> servedMask st ! i \<and> arrivalTimes ! i \<le> currentTime st
                                      \<and> Some i \<notin> set (serverOccupancy st)) [0..<n];
          ps2 = fold (assign_idle priorities usePriority) [0..<servers] (waitingPool, st);
          ps3 = (if usePriority \<and> fst ps2 \<noteq> []
                 then fold (preempt priorities) [0..<servers] ps2 else ps2);
          st3 = snd ps3;
          events = possibleEvents arrivalTimes st3
      in if events = [] then Inl st3
         else
           let nextEventTime = Min (set events);
               st5 = fold (execute_work nextEventTime) [0..<servers] st3
           in Inr (st5\<lparr>currentTime := nextEventTime\<rparr>))"

partial_function (option) mms_loop ::
  "int list \<Rightarrow> int list \<Rightarrow> nat \<Rightarrow> bool \<Rightarrow> mms_state \<Rightarrow> mms_state option" where
  "mms_loop arrivalTimes priorities servers usePriority st =
     (if list_all (\<lambda>b. b) (servedMask st) then Some st
      else case mms_step arrivalTimes priorities servers usePriority st of
             Inl st' \<Rightarrow> Some st'
           | Inr st' \<Rightarrow> mms_loop arrivalTimes priorities servers usePriority st')"

declare mms_loop.simps [code]

definition mms_init :: "int list \<Rightarrow> int list \<Rightarrow> nat \<Rightarrow> mms_state" where
  "mms_init arrivalTimes serviceTimes servers =
     (let n = length arrivalTimes
      in \<lparr>currentTime = 0, remainingTimes = serviceTimes, servedMask = replicate n False,
          chunks = [], serviceStart = replicate n (- 1), serviceEnd = replicate n 0,
          serverAssigned = replicate n [], serverOccupancy = replicate servers None,
          lastChunkStart = replicate n 0\<rparr>)"

text \<open>
  The utilisation from the timeline. A row is valid when both its times are not
  negative; it adds one to every time unit from its \<open>serviceStart\<close> up to, not including,
  its \<open>serviceEnd\<close>. These units are below \<open>simulationEnd\<close>, inside the timeline.
\<close>

definition mark_busy :: "SimulationRow \<Rightarrow> nat list \<Rightarrow> nat list" where
  "mark_busy r timeline =
     fold (\<lambda>t tl. tl[t := tl ! t + 1])
       [nat (row_serviceStart r)..<nat (row_serviceEnd r)] timeline"

definition js_min :: "jsnum \<Rightarrow> jsnum \<Rightarrow> jsnum" where
  "js_min x y = (case (x, y) of (NaN, _) \<Rightarrow> NaN | (_, NaN) \<Rightarrow> NaN
                 | _ \<Rightarrow> if js_lt y x then y else x)"

definition mms_utilization :: "SimulationRow list \<Rightarrow> int list \<Rightarrow> nat \<Rightarrow> jsnum" where
  "mms_utilization rs ends servers =
     (let validRows = filter (\<lambda>r. 0 \<le> row_serviceStart r \<and> 0 \<le> row_serviceEnd r) rs;
          simulationEnd = Max (set (ends @ [0]));
          timeline = fold mark_busy validRows (replicate (nat (simulationEnd + 1)) 0);
          totalBusyTime = foldl (\<lambda>acc val. acc + min val servers) 0 timeline;
          totalTimeObserved = simulationEnd;
          utilization =
            (if 0 < totalTimeObserved
             then js_mul (js_div (Fin (of_nat totalBusyTime))
                            (Fin (of_int totalTimeObserved * of_nat servers))) (Fin 100)
             else Fin 0)
      in js_min utilization (Fin 100))"

definition mmsSSimulation ::
  "int list \<Rightarrow> int list \<Rightarrow> int list \<Rightarrow> nat \<Rightarrow> bool \<Rightarrow> SimulationResult option" where
  "mmsSSimulation arrivalTimes serviceTimes priorities servers usePriority =
     (case mms_loop arrivalTimes priorities servers usePriority
             (mms_init arrivalTimes serviceTimes servers) of
        None \<Rightarrow> None
      | Some st \<Rightarrow>
          let rs = make_rows arrivalTimes serviceTimes priorities (serviceStart st)
                     (serviceEnd st) (\<lambda>i. Some (serverAssigned st ! i));
              utilization = mms_utilization rs (serviceEnd st) servers
          in Some \<lparr>rows = rs, res_chunks = chunks st,
                   averages = make_averages rs serviceTimes utilization\<rparr>)"

definition mgsSSimulation ::
  "int list \<Rightarrow> int list \<Rightarrow> int list \<Rightarrow> nat \<Rightarrow> bool \<Rightarrow> SimulationResult option" where
  "mgsSSimulation = mmsSSimulation"

subsection \<open>The vocabulary of the claims about the schedulers\<close>

text \<open>The total duration of the chunks that carry a label.\<close>

definition chunk_sum :: "string \<Rightarrow> ServiceChunk list \<Rightarrow> int" where
  "chunk_sum lbl cs = sum_list (map (\<lambda>c. ch_end c - ch_start c) (filter (\<lambda>c. ch_label c = lbl) cs))"

text \<open>
  The arrays a simulation runs on: one arrival time, one service time of at least 1 and
  one priority for each customer.
\<close>

definition sim_input :: "int list \<Rightarrow> int list \<Rightarrow> int list \<Rightarrow> bool" where
  "sim_input arrivalTimes serviceTimes priorities =
     (length serviceTimes = length arrivalTimes \<and> length priorities = length arrivalTimes
      \<and> list_all (\<lambda>v. 1 \<le> v) serviceTimes)"

text \<open>
  The invariant of the single-server loop, for the arrays \<open>arrivalTimes\<close> and
  \<open>serviceTimes\<close>: the arrays keep their length; a served customer has no work left and
  an unserved one has some; the chunks of a customer add up to the work taken off it; a
  served customer has a chunk that ends at its \<open>serviceEnds\<close>; the clock is not negative
  and no stamp is ahead of it; the work done so far fits between the first stamped start and the clock; and when
  the last customer is served the clock is its \<open>serviceEnds\<close>.
\<close>

definition inv_len :: "int list \<Rightarrow> int list \<Rightarrow> mm1_state \<Rightarrow> bool" where
  "inv_len arrivalTimes serviceTimes st =
     (length serviceTimes = length arrivalTimes
      \<and> length (remainingTimes st) = length arrivalTimes
      \<and> length (servedMask st) = length arrivalTimes
      \<and> length (serviceStarts st) = length arrivalTimes
      \<and> length (serviceEnds st) = length arrivalTimes)"

definition inv_rem :: "'a sim_state_scheme \<Rightarrow> bool" where
  "inv_rem st =
     (\<forall>i < length (remainingTimes st).
        (servedMask st ! i \<longrightarrow> remainingTimes st ! i = 0)
        \<and> (\<not> servedMask st ! i \<longrightarrow> 0 < remainingTimes st ! i))"

definition inv_sum :: "int list \<Rightarrow> mm1_state \<Rightarrow> bool" where
  "inv_sum serviceTimes st =
     (\<forall>i < length serviceTimes.
        chunk_sum (customer_label i) (chunks st) = serviceTimes ! i - remainingTimes st ! i)"

definition inv_end :: "mm1_state \<Rightarrow> bool" where
  "inv_end st =
     (\<forall>i < length (servedMask st). servedMask st ! i \<longrightarrow>
        (\<exists>c \<in> set (chunks st). ch_label c = customer_label i \<and> ch_end c = serviceEnds st ! i))"

definition inv_time :: "mm1_state \<Rightarrow> bool" where
  "inv_time st =
     (0 \<le> currentTime st
      \<and> (\<forall>i < length (serviceEnds st). serviceEnds st ! i \<le> currentTime st)
      \<and> (\<forall>i < length (serviceStarts st). serviceStarts st ! i \<le> currentTime st))"

definition inv_busy :: "int list \<Rightarrow> mm1_state \<Rightarrow> bool" where
  "inv_busy serviceTimes st =
     (sum_list (remainingTimes st) = sum_list serviceTimes
      \<or> (\<exists>j < length (serviceStarts st). serviceStarts st ! j \<noteq> - 1
            \<and> sum_list serviceTimes - sum_list (remainingTimes st)
              \<le> currentTime st - serviceStarts st ! j))"

definition inv_last :: "mm1_state \<Rightarrow> bool" where
  "inv_last st =
     (list_all (\<lambda>b. b) (servedMask st) \<longrightarrow>
        servedMask st = [] \<or> (\<exists>i < length (serviceEnds st). serviceEnds st ! i = currentTime st))"

definition inv1 :: "int list \<Rightarrow> int list \<Rightarrow> mm1_state \<Rightarrow> bool" where
  "inv1 arrivalTimes serviceTimes st =
     (inv_len arrivalTimes serviceTimes st \<and> inv_rem st \<and> inv_sum serviceTimes st
      \<and> inv_end st \<and> inv_time st \<and> inv_busy serviceTimes st \<and> inv_last st)"

text \<open>What decreases in every iteration: twice the work left, plus one while nobody waits.\<close>

definition measure1 :: "int list \<Rightarrow> mm1_state \<Rightarrow> nat" where
  "measure1 arrivalTimes st =
     2 * nat (sum_list (remainingTimes st)) + (if waiting arrivalTimes st = [] then 1 else 0)"

text \<open>
  The invariant of the multi-server loop, for \<open>servers\<close> servers. Besides the lengths and
  the work left: a customer on a server is unserved and its open chunk did not start after
  the clock; no customer is on two servers; the closed chunks of a customer and, when it is
  on a server, the time since \<open>lastChunkStart\<close> add up to the work taken off it; a served
  customer has a chunk that ends at its \<open>serviceEnd\<close>.
\<close>

definition on_server :: "mms_state \<Rightarrow> nat \<Rightarrow> bool" where
  "on_server st i = (Some i \<in> set (serverOccupancy st))"

definition inv2_len :: "int list \<Rightarrow> int list \<Rightarrow> nat \<Rightarrow> mms_state \<Rightarrow> bool" where
  "inv2_len arrivalTimes serviceTimes servers st =
     (length serviceTimes = length arrivalTimes
      \<and> length (remainingTimes st) = length arrivalTimes
      \<and> length (servedMask st) = length arrivalTimes
      \<and> length (serviceStart st) = length arrivalTimes
      \<and> length (serviceEnd st) = length arrivalTimes
      \<and> length (serverAssigned st) = length arrivalTimes
      \<and> length (lastChunkStart st) = length arrivalTimes
      \<and> length (serverOccupancy st) = servers)"

definition inv2_occ :: "mms_state \<Rightarrow> bool" where
  "inv2_occ st =
     (\<forall>s < length (serverOccupancy st). \<forall>c. serverOccupancy st ! s = Some c \<longrightarrow>
        c < length (remainingTimes st) \<and> \<not> servedMask st ! c
        \<and> lastChunkStart st ! c \<le> currentTime st)"

definition inv2_dist :: "mms_state \<Rightarrow> bool" where
  "inv2_dist st =
     (\<forall>s1 < length (serverOccupancy st). \<forall>s2 < length (serverOccupancy st). \<forall>c.
        serverOccupancy st ! s1 = Some c \<and> serverOccupancy st ! s2 = Some c \<longrightarrow> s1 = s2)"

definition inv2_sum :: "int list \<Rightarrow> mms_state \<Rightarrow> bool" where
  "inv2_sum serviceTimes st =
     (\<forall>i < length serviceTimes.
        chunk_sum (customer_label i) (chunks st)
        + (if on_server st i then currentTime st - lastChunkStart st ! i else 0)
        = serviceTimes ! i - remainingTimes st ! i)"

definition inv2_end :: "mms_state \<Rightarrow> bool" where
  "inv2_end st =
     (\<forall>i < length (servedMask st). servedMask st ! i \<longrightarrow>
        (\<exists>c \<in> set (chunks st). ch_label c = customer_label i \<and> ch_end c = serviceEnd st ! i))"

definition inv2 :: "int list \<Rightarrow> int list \<Rightarrow> nat \<Rightarrow> mms_state \<Rightarrow> bool" where
  "inv2 arrivalTimes serviceTimes servers st =
     (inv2_len arrivalTimes serviceTimes servers st \<and> inv_rem st \<and> inv2_occ st \<and> inv2_dist st
      \<and> inv2_sum serviceTimes st \<and> inv2_end st)"

text \<open>The waiting pool between the steps: distinct unserved customers, none on a server.\<close>

definition pool_ok :: "nat list \<Rightarrow> mms_state \<Rightarrow> bool" where
  "pool_ok pool st =
     (distinct pool
      \<and> (\<forall>c \<in> set pool. c < length (remainingTimes st) \<and> \<not> servedMask st ! c
                          \<and> \<not> on_server st c))"

definition mid_inv :: "int list \<Rightarrow> int list \<Rightarrow> nat \<Rightarrow> mms_state \<Rightarrow> nat list \<times> mms_state \<Rightarrow> bool" where
  "mid_inv arrivalTimes serviceTimes servers st0 ps =
     (inv2 arrivalTimes serviceTimes servers (snd ps) \<and> pool_ok (fst ps) (snd ps)
      \<and> currentTime (snd ps) = currentTime st0
      \<and> remainingTimes (snd ps) = remainingTimes st0
      \<and> servedMask (snd ps) = servedMask st0
      \<and> (\<forall>s < servers. serverOccupancy st0 ! s \<noteq> None \<longrightarrow> serverOccupancy (snd ps) ! s \<noteq> None))"

text \<open>What decreases in every iteration: the work left plus the number of arrivals to come.\<close>

definition measure2 :: "int list \<Rightarrow> mms_state \<Rightarrow> nat" where
  "measure2 arrivalTimes st =
     nat (sum_list (remainingTimes st))
     + length (filter (\<lambda>a. currentTime st < a) arrivalTimes)"

text \<open>
  Step 5 visits the servers in turn while the clock still shows the old time. After the
  servers below \<open>k\<close>: the clock and \<open>lastChunkStart\<close> are those of the state \<open>st0\<close> before
  the step, the servers from \<open>k\<close> on are untouched and no customer was put on a server; the
  time jump does not exceed the work left of a customer on a server from \<open>k\<close> on; the
  chunks add up with the new time for the customers on the servers below \<open>k\<close> and the old
  one for the others; and the work left has not grown, and has shrunk if a server below
  \<open>k\<close> was busy.
\<close>

definition work_frame :: "nat \<Rightarrow> mms_state \<Rightarrow> nat \<Rightarrow> mms_state \<Rightarrow> bool" where
  "work_frame servers st0 k st =
     (currentTime st = currentTime st0 \<and> lastChunkStart st = lastChunkStart st0
      \<and> (\<forall>s. k \<le> s \<and> s < servers \<longrightarrow> serverOccupancy st ! s = serverOccupancy st0 ! s)
      \<and> (\<forall>s < servers. \<forall>c. serverOccupancy st ! s = Some c
                               \<longrightarrow> serverOccupancy st0 ! s = Some c))"

definition work_min :: "nat \<Rightarrow> int \<Rightarrow> nat \<Rightarrow> mms_state \<Rightarrow> bool" where
  "work_min servers timeJump k st =
     (\<forall>s. k \<le> s \<and> s < servers \<longrightarrow>
        (\<forall>c. serverOccupancy st ! s = Some c \<longrightarrow> timeJump \<le> remainingTimes st ! c))"

definition work_sum :: "int list \<Rightarrow> int \<Rightarrow> nat \<Rightarrow> mms_state \<Rightarrow> bool" where
  "work_sum serviceTimes nextEventTime k st =
     (\<forall>i < length serviceTimes.
        chunk_sum (customer_label i) (chunks st)
        + (if on_server st i
           then (if \<exists>s < k. serverOccupancy st ! s = Some i then nextEventTime
                 else currentTime st) - lastChunkStart st ! i
           else 0)
        = serviceTimes ! i - remainingTimes st ! i)"

definition work_less :: "mms_state \<Rightarrow> nat \<Rightarrow> mms_state \<Rightarrow> bool" where
  "work_less st0 k st =
     (sum_list (remainingTimes st) \<le> sum_list (remainingTimes st0)
      \<and> ((\<exists>s < k. serverOccupancy st0 ! s \<noteq> None)
           \<longrightarrow> sum_list (remainingTimes st) < sum_list (remainingTimes st0)))"

definition work_inv ::
  "int list \<Rightarrow> int list \<Rightarrow> nat \<Rightarrow> mms_state \<Rightarrow> int \<Rightarrow> nat \<Rightarrow> mms_state \<Rightarrow> bool" where
  "work_inv arrivalTimes serviceTimes servers st0 nextEventTime k st =
     (inv2_len arrivalTimes serviceTimes servers st \<and> inv_rem st \<and> inv2_occ st \<and> inv2_dist st
      \<and> inv2_end st \<and> work_frame servers st0 k st
      \<and> work_min servers (nextEventTime - currentTime st0) k st
      \<and> work_sum serviceTimes nextEventTime k st \<and> work_less st0 k st)"

text \<open>A utilisation as the specification wants it: a number from 0 to 100.\<close>

definition percentage :: "jsnum \<Rightarrow> bool" where
  "percentage u = (case u of Fin v \<Rightarrow> 0 \<le> v \<and> v \<le> 100 | _ \<Rightarrow> False)"

text \<open>A chunk as the triple of its label, start and end, for the examples.\<close>

definition chunk_triples :: "SimulationResult option \<Rightarrow> (string \<times> int \<times> int) list option" where
  "chunk_triples r = map_option (\<lambda>x. map (\<lambda>c. (ch_label c, ch_start c, ch_end c)) (res_chunks x)) r"

text \<open>
  The choice that breaks ties by the lowest index, on a pool that is not empty: the
  smallest index of the pool, and in priority mode the smallest index among those of
  the pool whose priority number is minimal in the pool.
\<close>

definition lowest_index_choice :: "int list \<Rightarrow> bool \<Rightarrow> nat list \<Rightarrow> nat" where
  "lowest_index_choice priorities usePriority pool =
     (if usePriority
      then Min (set (filter (\<lambda>i. list_all (\<lambda>j. priorities ! i \<le> priorities ! j) pool) pool))
      else Min (set pool))"

text \<open>\<open>b\<close> is the customer of \<open>S\<close> with the lowest index among those of minimal priority.\<close>

definition lowest_in :: "int list \<Rightarrow> nat set \<Rightarrow> nat \<Rightarrow> bool" where
  "lowest_in priorities S b =
     (b \<in> S \<and> (\<forall>j \<in> S. priorities ! b \<le> priorities ! j)
      \<and> (\<forall>j \<in> S. priorities ! j = priorities ! b \<longrightarrow> b \<le> j))"


section \<open>Facts about the arithmetic\<close>

lemma js_ge_Fin [simp]: "js_ge (Fin a) (Fin b) = (b \<le> a)"
  by (simp add: js_ge_def)

lemma js_sub_Fin [simp]: "js_sub (Fin a) (Fin b) = Fin (a - b)"
  by (simp add: js_sub_def)

lemma js_sub_NaN [simp]: "js_sub NaN y = NaN"
  by (simp add: js_sub_def)

lemma js_mul_NaN_right [simp]: "js_mul x NaN = NaN"
  by (cases x) simp_all

lemma js_add_NaN_right [simp]: "js_add x NaN = NaN"
  by (cases x) simp_all

lemma js_div_NaN_right [simp]: "js_div x NaN = NaN"
  by (cases x) simp_all

section \<open>Properties of the analytical calculator\<close>

lemma example_input_simps [simp]:
  "qi_lambda (example_input l m) = l" "qi_mu (example_input l m) = m"
  "qi_s (example_input l m) = None" "qi_sigma (example_input l m) = None"
  "qi_ca (example_input l m) = None" "qi_cs (example_input l m) = None"
  by (simp_all add: example_input_def)

subsection \<open>factorial and erlangC\<close>

lemma factorial_loop_pos: "0 < i \<Longrightarrow> 0 < r \<Longrightarrow> 0 < factorial_loop n i r"
proof (induction n i r rule: factorial_loop.induct)
  case (1 n i result)
  show ?case
  proof (cases "i \<le> n")
    case True
    have "0 < factorial_loop n (i + 1) (result * i)"
      using 1 True by simp
    then show ?thesis using True by (subst factorial_loop.simps) simp
  next
    case False
    then show ?thesis using 1 by (subst factorial_loop.simps) simp
  qed
qed

lemma factorial_pos: "0 < factorial n"
  by (simp add: factorial_def factorial_loop_pos)

lemma factorial_0 [simp]: "factorial 0 = 1"
  by (simp add: factorial_def)

lemma factorial_1 [simp]: "factorial 1 = 1"
  by (simp add: factorial_def)

lemma js_pow_nonneg:
  assumes "0 \<le> a"
  shows "\<exists>p. js_pow (Fin a) e = Fin p \<and> 0 \<le> p \<or> (a = 0 \<and> e < 0)"
  using assms by (cases "a = 0") auto

lemma erlangC_loop_fin:
  assumes "0 \<le> a" and "0 \<le> d"
  shows "\<exists>d'. erlangC_loop (Fin a) s k (Fin d) = Fin d' \<and> d \<le> d'"
  using assms(2)
proof (induction "Fin a" s k "Fin d" arbitrary: d rule: erlangC_loop.induct)
  case (1 s k)
  show ?case
  proof (cases "real k < s")
    case False
    then show ?thesis by (subst erlangC_loop.simps) simp
  next
    case True
    obtain p where p: "js_pow (Fin a) (real k) = Fin p" "0 \<le> p"
      using js_pow_nonneg [OF assms(1), of "real k"] by auto
    let ?t = "p / factorial (real k)"
    have t: "0 \<le> ?t" using p factorial_pos [of "real k"] by simp
    have step: "js_add (Fin d) (js_div (js_pow (Fin a) (real k)) (Fin (factorial (real k))))
                = Fin (d + ?t)"
      using p factorial_pos [of "real k"] by simp
    have "\<exists>d'. erlangC_loop (Fin a) s (Suc k) (Fin (d + ?t)) = Fin d' \<and> d + ?t \<le> d'"
      using "1.hyps" [OF True step] "1.prems" t by simp
    then obtain d' where d': "erlangC_loop (Fin a) s (Suc k) (Fin (d + ?t)) = Fin d'" "d + ?t \<le> d'"
      by blast
    have "erlangC_loop (Fin a) s k (Fin d) = Fin d'"
      using True step d'(1) by (subst erlangC_loop.simps) simp
    then show ?thesis using d'(2) t by auto
  qed
qed

lemma erlangC_loop_first:
  assumes "0 \<le> a" and "0 < s"
  shows "\<exists>d'. erlangC_loop (Fin a) s 0 (Fin 0) = Fin d' \<and> 1 \<le> d'"
proof -
  have "erlangC_loop (Fin a) s 0 (Fin 0) = erlangC_loop (Fin a) s (Suc 0) (Fin 1)"
    using assms(2) by (subst erlangC_loop.simps) simp
  then show ?thesis using erlangC_loop_fin [OF assms(1), of 1 s "Suc 0"] by simp
qed

lemma erlangC_fin:
  assumes "0 \<le> lambda" and "0 < mu" and "0 < s" and "lambda / (s * mu) < 1"
  shows "\<exists>p. erlangC lambda mu s = Fin p \<and> 0 \<le> p"
proof -
  define r where "r = lambda / (s * mu)"
  define a where "a = lambda / mu"
  have smu: "s * mu \<noteq> 0" "mu \<noteq> 0" using assms by auto
  have a: "0 \<le> a" using assms by (simp add: a_def)
  have r: "r < 1" using assms by (simp add: r_def)
  obtain q where q: "js_pow (Fin a) s = Fin q" "0 \<le> q"
    using js_pow_nonneg [OF a, of s] assms(3) by auto
  obtain d where d: "erlangC_loop (Fin a) s 0 (Fin 0) = Fin d" "1 \<le> d"
    using erlangC_loop_first [OF a assms(3)] by blast
  define n where "n = q / factorial s / (1 - r)"
  have n: "0 \<le> n" using q factorial_pos [of s] r by (simp add: n_def)
  have f: "factorial s \<noteq> 0" using factorial_pos [of s] by simp
  have one: "1 - r \<noteq> 0" using r by linarith
  have dn: "d + n \<noteq> 0" using d n by linarith
  have rho: "js_div (Fin lambda) (js_mul (Fin s) (Fin mu)) = Fin r"
    using smu by (simp add: r_def)
  have av: "js_div (Fin lambda) (Fin mu) = Fin a"
    using smu by (simp add: a_def)
  have num: "js_div (js_div (js_pow (Fin a) s) (Fin (factorial s))) (js_sub (Fin 1) (Fin r)) = Fin n"
    using q(1) f one by (simp add: n_def)
  have "erlangC lambda mu s = js_div (Fin n) (js_add (Fin d) (Fin n))"
    unfolding erlangC_def Let_def rho av num d(1) using r by simp
  then have "erlangC lambda mu s = Fin (n / (d + n))"
    using dn by simp
  moreover have "0 \<le> n / (d + n)" using n d by simp
  ultimately show ?thesis by blast
qed

lemma erlangC_one:
  assumes "0 < lambda" and "lambda < mu"
  shows "erlangC lambda mu 1 = Fin (lambda / mu)"
proof -
  define a where "a = lambda / mu"
  have mu: "0 < mu" "mu \<noteq> 0" using assms by auto
  have r: "a < 1" "0 < a" using assms by (auto simp: a_def)
  have rho: "js_div (Fin lambda) (js_mul (Fin 1) (Fin mu)) = Fin a"
    using mu by (simp add: a_def)
  have av: "js_div (Fin lambda) (Fin mu) = Fin a"
    using mu by (simp add: a_def)
  have pw: "js_pow (Fin a) 1 = Fin a" using r by simp
  have l1: "erlangC_loop (Fin a) 1 (Suc 0) (Fin 1) = Fin 1"
    by (subst erlangC_loop.simps) simp
  have loop: "erlangC_loop (Fin a) 1 0 (Fin 0) = Fin 1"
    by (subst erlangC_loop.simps) (simp add: l1)
  have one: "1 - a \<noteq> 0" using r by linarith
  have num: "js_div (js_div (js_pow (Fin a) 1) (Fin (factorial 1))) (js_sub (Fin 1) (Fin a))
             = Fin (a / (1 - a))"
    unfolding pw using one by simp
  have den: "1 + a / (1 - a) = 1 / (1 - a)" using one by (simp add: field_simps)
  have nz: "1 + a / (1 - a) \<noteq> 0" unfolding den using one by simp
  have "erlangC lambda mu 1 = js_div (Fin (a / (1 - a))) (js_add (Fin 1) (Fin (a / (1 - a))))"
    unfolding erlangC_def Let_def rho av num loop using r by simp
  also have "\<dots> = Fin (a / (1 - a) / (1 + a / (1 - a)))" using nz by simp
  also have "a / (1 - a) / (1 + a / (1 - a)) = a" unfolding den using one by simp
  finally show ?thesis by (simp add: a_def)
qed

subsection \<open>Defaults of the optional fields\<close>

lemma sigma_default:
  "0 < qi_mu input \<Longrightarrow>
   (case qi_sigma input of None \<Rightarrow> js_div (Fin 1) (Fin (qi_mu input)) | Some v \<Rightarrow> Fin v)
   = Fin (sigma_of input)"
  by (simp add: sigma_of_def split: option.splits)

lemma s_default: "(case qi_s input of None \<Rightarrow> 1 | Some v \<Rightarrow> v) = servers_of input"
  by (simp add: servers_of_def)

lemma ca_default:
  "(case qi_ca input of None \<Rightarrow> Fin 1 | Some v \<Rightarrow> Fin v) = Fin (ca_of input)"
  by (simp add: ca_of_def split: option.splits)

lemma cs_default:
  "(case qi_cs input of None \<Rightarrow> js_mul (Fin (sigma_of input)) (Fin (qi_mu input)) | Some v \<Rightarrow> Fin v)
   = Fin (cs_of input)"
  by (simp add: cs_of_def split: option.splits)

lemma rho_single:
  "0 < qi_mu input \<Longrightarrow>
   js_div (Fin (qi_lambda input)) (Fin (qi_mu input)) = Fin (qi_lambda input / qi_mu input)"
  by simp

lemma rho_multi:
  "0 < qi_mu input \<Longrightarrow> 0 < sv \<Longrightarrow>
   js_div (Fin (qi_lambda input)) (js_mul (Fin sv) (Fin (qi_mu input)))
   = Fin (qi_lambda input / (sv * qi_mu input))"
  by simp

subsection \<open>The unstable branch of each calculator\<close>

lemma calculateMM1_unstable:
  assumes "0 < qi_mu input" "0 \<le> qi_lambda input" "1 \<le> qi_lambda input / qi_mu input"
  shows "calculateMM1 input = unstable_result (Fin (qi_lambda input / qi_mu input))"
  unfolding calculateMM1_def Let_def rho_single [OF assms(1)] using assms by simp

lemma calculateMMS_unstable:
  assumes "0 < qi_mu input" "0 \<le> qi_lambda input" "0 < servers_of input"
    "1 \<le> qi_lambda input / (servers_of input * qi_mu input)"
  shows "calculateMMS input
         = unstable_result (Fin (qi_lambda input / (servers_of input * qi_mu input)))"
  unfolding calculateMMS_def Let_def s_default rho_multi [OF assms(1,3)] using assms by simp

lemma calculateMG1_unstable:
  assumes "0 < qi_mu input" "0 \<le> qi_lambda input" "0 \<le> sigma_of input"
    "1 \<le> qi_lambda input / qi_mu input"
  shows "calculateMG1 input = unstable_result (Fin (qi_lambda input / qi_mu input))"
  unfolding calculateMG1_def Let_def sigma_default [OF assms(1)] rho_single [OF assms(1)]
  using assms by simp

lemma calculateMGS_unstable:
  assumes "0 < qi_mu input" "0 \<le> qi_lambda input" "0 < servers_of input"
    "0 \<le> sigma_of input" "1 \<le> qi_lambda input / (servers_of input * qi_mu input)"
  shows "calculateMGS input
         = unstable_result (Fin (qi_lambda input / (servers_of input * qi_mu input)))"
  unfolding calculateMGS_def Let_def s_default sigma_default [OF assms(1)]
    rho_multi [OF assms(1,3)]
  using assms by simp

lemma calculateGG1_unstable:
  assumes "0 < qi_mu input" "0 \<le> qi_lambda input" "0 \<le> sigma_of input"
    "0 \<le> ca_of input" "0 \<le> cs_of input" "1 \<le> qi_lambda input / qi_mu input"
  shows "calculateGG1 input = unstable_result (Fin (qi_lambda input / qi_mu input))"
  unfolding calculateGG1_def Let_def sigma_default [OF assms(1)] ca_default cs_default
    rho_single [OF assms(1)]
  using assms by simp

lemma calculateGGS_unstable:
  assumes "0 < qi_mu input" "0 \<le> qi_lambda input" "0 < servers_of input"
    "0 \<le> sigma_of input" "0 \<le> ca_of input" "0 \<le> cs_of input"
    "1 \<le> qi_lambda input / (servers_of input * qi_mu input)"
  shows "calculateGGS input
         = unstable_result (Fin (qi_lambda input / (servers_of input * qi_mu input)))"
  unfolding calculateGGS_def Let_def s_default sigma_default [OF assms(1)] ca_default cs_default
    rho_multi [OF assms(1,3)]
  using assms by simp

text \<open>
  Claim C6. For each of the six models, an input that passes the model's validation and
  has utilisation at least 1 yields \<open>stable = false\<close>, \<open>Lq\<close>, \<open>Wq\<close>, \<open>W\<close> and \<open>L\<close>
  all \<open>+Infinity\<close>, and no error string.
\<close>

theorem unstable_is_infinite_without_error:
  assumes "valid_input m input" and "1 \<le> utilisation m input"
  shows "rho (calculateQueuingMetrics m input) = Fin (utilisation m input)
         \<and> stable (calculateQueuingMetrics m input) = False
         \<and> Lq (calculateQueuingMetrics m input) = PInf
         \<and> Wq (calculateQueuingMetrics m input) = PInf
         \<and> W (calculateQueuingMetrics m input) = PInf
         \<and> L (calculateQueuingMetrics m input) = PInf
         \<and> error (calculateQueuingMetrics m input) = None"
proof -
  have "calculateQueuingMetrics m input = unstable_result (Fin (utilisation m input))"
  proof (cases m)
    case MM1
    then show ?thesis using assms calculateMM1_unstable [of input]
      by (simp add: valid_input_def utilisation_def multi_server_def)
  next
    case MMS
    then show ?thesis using assms calculateMMS_unstable [of input]
      by (simp add: valid_input_def utilisation_def multi_server_def)
  next
    case MG1
    then show ?thesis using assms calculateMG1_unstable [of input]
      by (simp add: valid_input_def utilisation_def multi_server_def)
  next
    case MGS
    then show ?thesis using assms calculateMGS_unstable [of input]
      by (simp add: valid_input_def utilisation_def multi_server_def)
  next
    case GG1
    then show ?thesis using assms calculateGG1_unstable [of input]
      by (simp add: valid_input_def utilisation_def multi_server_def)
  next
    case GGS
    then show ?thesis using assms calculateGGS_unstable [of input]
      by (simp add: valid_input_def utilisation_def multi_server_def)
  qed
  then show ?thesis by (simp add: unstable_result_def)
qed

theorem unstable_is_infinite_without_error_witness:
  "valid_input MM1 (example_input 10 5) \<and> 1 \<le> utilisation MM1 (example_input 10 5)
   \<and> stable (calculateQueuingMetrics MM1 (example_input 10 5)) = False
   \<and> W (calculateQueuingMetrics MM1 (example_input 10 5)) = PInf
   \<and> error (calculateQueuingMetrics MM1 (example_input 10 5)) = None"
  using unstable_is_infinite_without_error [of MM1 "example_input 10 5"]
  by (simp add: valid_input_def utilisation_def multi_server_def)

subsection \<open>The stable branch of each calculator\<close>


lemma calculateMM1_stable:
  assumes "0 < qi_mu input" "0 \<le> qi_lambda input" "qi_lambda input / qi_mu input < 1"
  shows "calculateMM1 input =
         finish (qi_lambda input) (qi_mu input) (Fin (qi_lambda input / qi_mu input))
           (Fin ((qi_lambda input / qi_mu input) * (qi_lambda input / qi_mu input)
                 / (1 - qi_lambda input / qi_mu input)))
           (js_div (Fin ((qi_lambda input / qi_mu input) * (qi_lambda input / qi_mu input)
                 / (1 - qi_lambda input / qi_mu input))) (Fin (qi_lambda input)))"
proof -
  define r where "r = qi_lambda input / qi_mu input"
  have r: "r < 1" "1 - r \<noteq> 0" using assms by (auto simp: r_def)
  have rho: "js_div (Fin (qi_lambda input)) (Fin (qi_mu input)) = Fin r"
    using assms(1) by (simp add: r_def)
  have lq: "js_div (js_mul (Fin r) (Fin r)) (js_sub (Fin 1) (Fin r)) = Fin (r * r / (1 - r))"
    using r by simp
  have v: "\<not> (js_le (Fin (qi_mu input)) (Fin 0) \<or> js_lt (Fin (qi_lambda input)) (Fin 0))"
    using assms by simp
  have g: "\<not> js_ge (Fin r) (Fin 1)" using r by simp
  show ?thesis
    unfolding calculateMM1_def Let_def rho lq finish_def r_def [symmetric]
    using v g by simp
qed

lemma calculateMMS_stable:
  assumes "0 < qi_mu input" "0 \<le> qi_lambda input" "0 < servers_of input"
    "qi_lambda input / (servers_of input * qi_mu input) < 1"
  shows "\<exists>p. erlangC (qi_lambda input) (qi_mu input) (servers_of input) = Fin p \<and> 0 \<le> p \<and>
           calculateMMS input =
           finish (qi_lambda input) (qi_mu input)
             (Fin (qi_lambda input / (servers_of input * qi_mu input)))
             (Fin (qi_lambda input * (p / (servers_of input * qi_mu input - qi_lambda input))))
             (Fin (p / (servers_of input * qi_mu input - qi_lambda input)))"
proof -
  define r where "r = qi_lambda input / (servers_of input * qi_mu input)"
  define c where "c = servers_of input * qi_mu input"
  have c: "0 < c" using assms by (simp add: c_def)
  have r: "r < 1" using assms by (simp add: r_def)
  have "qi_lambda input / c < 1" using r by (simp add: r_def c_def)
  then have "qi_lambda input < c" using c by (simp only: divide_less_eq_1_pos)
  then have gap: "c - qi_lambda input \<noteq> 0" by simp
  obtain p where p: "erlangC (qi_lambda input) (qi_mu input) (servers_of input) = Fin p" "0 \<le> p"
    using erlangC_fin [OF assms(2,1,3,4)] by blast
  have rho: "js_div (Fin (qi_lambda input)) (js_mul (Fin (servers_of input)) (Fin (qi_mu input)))
             = Fin r"
    using assms(1,3) by (simp add: r_def)
  have wq: "js_div (Fin p) (js_sub (js_mul (Fin (servers_of input)) (Fin (qi_mu input)))
                                   (Fin (qi_lambda input)))
            = Fin (p / (c - qi_lambda input))"
    using gap by (simp add: c_def)
  have v: "\<not> (js_le (Fin (qi_mu input)) (Fin 0) \<or> js_lt (Fin (qi_lambda input)) (Fin 0)
              \<or> js_le (Fin (servers_of input)) (Fin 0))"
    using assms by simp
  have g: "\<not> js_ge (Fin r) (Fin 1)" using r by simp
  have "calculateMMS input =
        finish (qi_lambda input) (qi_mu input) (Fin r)
          (Fin (qi_lambda input * (p / (c - qi_lambda input)))) (Fin (p / (c - qi_lambda input)))"
    unfolding calculateMMS_def Let_def s_default rho p(1) wq finish_def
    using v g by simp
  then show ?thesis using p by (auto simp: r_def c_def)
qed

lemma mms_input_simps [simp]:
  "qi_lambda (mms_input l m sv) = l" "qi_mu (mms_input l m sv) = m"
  "servers_of (mms_input l m sv) = sv"
  by (simp_all add: mms_input_def servers_of_def)

lemma finish_simps [simp]:
  "stable (finish l m r lq wq)" "Wq (finish l m r lq wq) = wq"
  "error (finish l m r lq wq) = None" "Lq (finish l m r lq wq) = lq"
  "rho (finish l m r lq wq) = r"
  "W (finish l m r lq wq) = js_add wq (js_div (Fin 1) (Fin m))"
  "L (finish l m r lq wq) = js_mul (Fin l) (js_add wq (js_div (Fin 1) (Fin m)))"
  by (simp_all add: finish_def stable_result_def)

lemma calculateMG1_stable:
  assumes "0 < qi_mu input" "0 \<le> qi_lambda input" "0 \<le> sigma_of input"
    "qi_lambda input / qi_mu input < 1"
  shows "calculateMG1 input =
           finish (qi_lambda input) (qi_mu input) (Fin (qi_lambda input / qi_mu input))
             (Fin (mg1_Lq input)) (js_div (Fin (mg1_Lq input)) (Fin (qi_lambda input)))"
proof -
  define r where "r = qi_lambda input / qi_mu input"
  have r1: "r < 1" using assms by (simp add: r_def)
  then have r: "r < 1" "2 * (1 - r) \<noteq> 0" by auto
  have rho: "js_div (Fin (qi_lambda input)) (Fin (qi_mu input)) = Fin r"
    using assms(1) by (simp add: r_def)
  have v: "\<not> (js_le (Fin (qi_mu input)) (Fin 0) \<or> js_lt (Fin (qi_lambda input)) (Fin 0)
              \<or> js_lt (Fin (sigma_of input)) (Fin 0))"
    using assms by simp
  have g: "\<not> js_ge (Fin r) (Fin 1)" using r by simp
  have lq: "js_div (js_add (js_mul (js_mul (js_mul (Fin (qi_lambda input)) (Fin (qi_lambda input)))
                (Fin (sigma_of input))) (Fin (sigma_of input))) (js_mul (Fin r) (Fin r)))
              (js_mul (Fin 2) (js_sub (Fin 1) (Fin r))) = Fin (mg1_Lq input)"
    using r(2) by (simp add: mg1_Lq_def r_def)
  show ?thesis
    unfolding calculateMG1_def Let_def sigma_default [OF assms(1)] rho lq finish_def
      r_def [symmetric]
    using v g by simp
qed

lemma calculateGG1_stable:
  assumes "0 < qi_mu input" "0 \<le> qi_lambda input" "0 \<le> sigma_of input"
    "0 \<le> ca_of input" "0 \<le> cs_of input" "qi_lambda input / qi_mu input < 1"
  shows "calculateGG1 input =
           finish (qi_lambda input) (qi_mu input) (Fin (qi_lambda input / qi_mu input))
             (Fin (gg1_Lq input)) (js_div (Fin (gg1_Lq input)) (Fin (qi_lambda input)))"
proof -
  define r where "r = qi_lambda input / qi_mu input"
  define den where "den = 2 * (1 - r) * (1 + r * r * (cs_of input * cs_of input))"
  have r: "r < 1" using assms by (auto simp: r_def)
  have "0 < 1 + r * r * (cs_of input * cs_of input)"
    by (metis add_pos_nonneg zero_less_one zero_le_mult_iff zero_le_square mult.assoc)
  then have den: "den \<noteq> 0" using r by (simp add: den_def)
  have rho: "js_div (Fin (qi_lambda input)) (Fin (qi_mu input)) = Fin r"
    using assms(1) by (simp add: r_def)
  have v: "\<not> (js_le (Fin (qi_mu input)) (Fin 0) \<or> js_lt (Fin (qi_lambda input)) (Fin 0)
              \<or> js_lt (Fin (sigma_of input)) (Fin 0) \<or> js_lt (Fin (ca_of input)) (Fin 0)
              \<or> js_lt (Fin (cs_of input)) (Fin 0))"
    using assms by simp
  have g: "\<not> js_ge (Fin r) (Fin 1)" using r by simp
  have d: "js_mul (js_mul (Fin 2) (js_sub (Fin 1) (Fin r)))
             (js_add (Fin 1) (js_mul (js_mul (Fin r) (Fin r))
                (js_mul (Fin (cs_of input)) (Fin (cs_of input))))) = Fin den"
    by (simp add: den_def)
  have n: "js_div (js_mul (js_mul (js_mul (Fin r) (Fin r))
                (js_add (Fin 1) (js_mul (Fin (ca_of input)) (Fin (ca_of input)))))
              (js_add (js_mul (Fin (cs_of input)) (Fin (cs_of input)))
                (js_mul (js_mul (Fin r) (Fin r)) (js_mul (Fin (ca_of input)) (Fin (ca_of input))))))
            (Fin den) = Fin (gg1_Lq input)"
    using den by (simp add: gg1_Lq_def Let_def r_def den_def)
  show ?thesis
    unfolding calculateGG1_def Let_def sigma_default [OF assms(1)] ca_default cs_default rho d n
      finish_def r_def [symmetric]
    using v g by simp
qed

lemma calculateMGS_stable:
  assumes "0 < qi_mu input" "0 \<le> qi_lambda input" "0 < servers_of input"
    "0 \<le> sigma_of input" "qi_lambda input / (servers_of input * qi_mu input) < 1"
  shows "\<exists>wq. calculateMGS input =
           finish (qi_lambda input) (qi_mu input)
             (Fin (qi_lambda input / (servers_of input * qi_mu input)))
             (Fin (qi_lambda input * wq)) (Fin wq)"
proof -
  define r where "r = qi_lambda input / (servers_of input * qi_mu input)"
  define i2 where "i2 = mms_input (qi_lambda input) (qi_mu input) (servers_of input)"
  have r: "r < 1" using assms by (simp add: r_def)
  obtain x where x: "stable (calculateMMS i2)" "Wq (calculateMMS i2) = Fin x"
    using calculateMMS_stable [of i2] assms by (auto simp: i2_def)
  have rho: "js_div (Fin (qi_lambda input)) (js_mul (Fin (servers_of input)) (Fin (qi_mu input)))
             = Fin r"
    using assms(1,3) by (simp add: r_def)
  have v: "\<not> (js_le (Fin (qi_mu input)) (Fin 0) \<or> js_lt (Fin (qi_lambda input)) (Fin 0)
              \<or> js_le (Fin (servers_of input)) (Fin 0) \<or> js_lt (Fin (sigma_of input)) (Fin 0))"
    using assms by simp
  have g: "\<not> js_ge (Fin r) (Fin 1)" using r by simp
  have "calculateMGS input =
        finish (qi_lambda input) (qi_mu input) (Fin r)
          (Fin (qi_lambda input
                * (x * (1 + sigma_of input * sigma_of input * qi_mu input * qi_mu input) / 2)))
          (Fin (x * (1 + sigma_of input * sigma_of input * qi_mu input * qi_mu input) / 2))"
    unfolding calculateMGS_def Let_def s_default sigma_default [OF assms(1)] rho finish_def
      i2_def [symmetric]
    using v g x by simp
  then show ?thesis unfolding r_def by blast
qed

lemma calculateGGS_stable:
  assumes "0 < qi_mu input" "0 \<le> qi_lambda input" "0 < servers_of input"
    "0 \<le> sigma_of input" "0 \<le> ca_of input" "0 \<le> cs_of input"
    "qi_lambda input / (servers_of input * qi_mu input) < 1"
  shows "\<exists>wq. calculateGGS input =
           finish (qi_lambda input) (qi_mu input)
             (Fin (qi_lambda input / (servers_of input * qi_mu input)))
             (Fin (qi_lambda input * wq)) (Fin wq)"
proof -
  define r where "r = qi_lambda input / (servers_of input * qi_mu input)"
  define i2 where "i2 = mms_input (qi_lambda input) (qi_mu input) (servers_of input)"
  have r: "r < 1" using assms by (simp add: r_def)
  obtain x where x: "stable (calculateMMS i2)" "Wq (calculateMMS i2) = Fin x"
    using calculateMMS_stable [of i2] assms by (auto simp: i2_def)
  have rho: "js_div (Fin (qi_lambda input)) (js_mul (Fin (servers_of input)) (Fin (qi_mu input)))
             = Fin r"
    using assms(1,3) by (simp add: r_def)
  have v: "\<not> (js_le (Fin (qi_mu input)) (Fin 0) \<or> js_lt (Fin (qi_lambda input)) (Fin 0)
              \<or> js_le (Fin (servers_of input)) (Fin 0) \<or> js_lt (Fin (sigma_of input)) (Fin 0)
              \<or> js_lt (Fin (ca_of input)) (Fin 0) \<or> js_lt (Fin (cs_of input)) (Fin 0))"
    using assms by simp
  have g: "\<not> js_ge (Fin r) (Fin 1)" using r by simp
  have "calculateGGS input =
        finish (qi_lambda input) (qi_mu input) (Fin r)
          (Fin (qi_lambda input
                * (x * (ca_of input * ca_of input + cs_of input * cs_of input) / 2)))
          (Fin (x * (ca_of input * ca_of input + cs_of input * cs_of input) / 2))"
    unfolding calculateGGS_def Let_def s_default sigma_default [OF assms(1)] ca_default cs_default
      rho finish_def i2_def [symmetric]
    using v g x by simp
  then show ?thesis unfolding r_def by blast
qed

lemma littles_law_finish:
  assumes "0 < mu"
  shows "littles_law lambda mu (finish lambda mu r lq (Fin wq))"
  using assms by (simp add: littles_law_def)

lemma littles_law_positive_rate:
  assumes "valid_input m input" and "utilisation m input < 1" and "0 < qi_lambda input"
  shows "littles_law (qi_lambda input) (qi_mu input) (calculateQueuingMetrics m input)"
proof -
  have mu: "0 < qi_mu input" and l: "qi_lambda input \<noteq> 0"
    using assms by (auto simp: valid_input_def)
  have "\<exists>r lq wq. calculateQueuingMetrics m input
          = finish (qi_lambda input) (qi_mu input) r lq (Fin wq)"
  proof (cases m)
    case MM1
    then have "calculateQueuingMetrics m input =
         finish (qi_lambda input) (qi_mu input) (Fin (qi_lambda input / qi_mu input))
           (Fin ((qi_lambda input / qi_mu input) * (qi_lambda input / qi_mu input)
                 / (1 - qi_lambda input / qi_mu input)))
           (js_div (Fin ((qi_lambda input / qi_mu input) * (qi_lambda input / qi_mu input)
                 / (1 - qi_lambda input / qi_mu input))) (Fin (qi_lambda input)))"
      using assms calculateMM1_stable [of input]
      by (simp add: valid_input_def utilisation_def multi_server_def)
    then show ?thesis using l by auto
  next
    case MMS
    then show ?thesis using assms calculateMMS_stable [of input]
      by (simp add: valid_input_def utilisation_def multi_server_def) blast
  next
    case MG1
    then have "calculateQueuingMetrics m input =
           finish (qi_lambda input) (qi_mu input) (Fin (qi_lambda input / qi_mu input))
             (Fin (mg1_Lq input)) (js_div (Fin (mg1_Lq input)) (Fin (qi_lambda input)))"
      using assms calculateMG1_stable [of input]
      by (simp add: valid_input_def utilisation_def multi_server_def)
    then show ?thesis using l by auto
  next
    case MGS
    then show ?thesis using assms calculateMGS_stable [of input]
      by (simp add: valid_input_def utilisation_def multi_server_def) blast
  next
    case GG1
    then have "calculateQueuingMetrics m input =
           finish (qi_lambda input) (qi_mu input) (Fin (qi_lambda input / qi_mu input))
             (Fin (gg1_Lq input)) (js_div (Fin (gg1_Lq input)) (Fin (qi_lambda input)))"
      using assms calculateGG1_stable [of input]
      by (simp add: valid_input_def utilisation_def multi_server_def)
    then show ?thesis using l by auto
  next
    case GGS
    then show ?thesis using assms calculateGGS_stable [of input]
      by (simp add: valid_input_def utilisation_def multi_server_def) blast
  qed
  then show ?thesis using littles_law_finish [OF mu] by auto
qed

text \<open>
  Claim C5 asks Little's law of every valid input with utilisation below 1. In exact
  arithmetic it holds whenever the arrival rate is positive
  (\<open>littles_law_positive_rate\<close>). At \<open>lambda = 0\<close>,
  which \<open>calculateMM1\<close> accepts, \<open>Wq = Lq / lambda\<close> is zero over zero: the result is
  marked stable and its \<open>Wq\<close>, \<open>W\<close> and \<open>L\<close> are NaN, so the law fails there.
\<close>

theorem littles_law_fails_at_zero_rate:
  "error (calculateQueuingMetrics MM1 (example_input 0 1)) = None
   \<and> rho (calculateQueuingMetrics MM1 (example_input 0 1)) = Fin 0
   \<and> stable (calculateQueuingMetrics MM1 (example_input 0 1))
   \<and> Wq (calculateQueuingMetrics MM1 (example_input 0 1)) = NaN
   \<and> W (calculateQueuingMetrics MM1 (example_input 0 1)) = NaN
   \<and> L (calculateQueuingMetrics MM1 (example_input 0 1)) = NaN
   \<and> littles_law 0 1 (calculateQueuingMetrics MM1 (example_input 0 1)) = False"
  by (simp add: calculateMM1_def Let_def stable_result_def littles_law_def)

text \<open>
  With finite numbers as reals, that is in exact arithmetic, the Erlang-C formula at
  \<open>s = 1\<close> reduces to the M/M/1 closed form: for \<open>0 < lambda < mu\<close> the two results are
  equal.
\<close>

lemma erlang_formula_at_one_server:
  assumes "0 < qi_lambda input" and "qi_lambda input < qi_mu input" and "qi_s input = Some 1"
  shows "calculateMMS input = calculateMM1 input"
proof -
  define l where "l = qi_lambda input"
  define m where "m = qi_mu input"
  have lm: "0 < l" "l < m" "0 < m" "l \<noteq> 0" "m \<noteq> 0" "m - l \<noteq> 0"
    using assms by (auto simp: l_def m_def)
  have s1: "servers_of input = 1" using assms(3) by (simp add: servers_of_def)
  have r: "l / m < 1" using lm by simp
  have one: "1 - l / m \<noteq> 0" using r by linarith
  have mm1: "calculateMM1 input =
             finish l m (Fin (l / m)) (Fin (l / m * (l / m) / (1 - l / m)))
               (Fin (l / m * (l / m) / (1 - l / m) / l))"
    using calculateMM1_stable [of input] lm r by (simp add: l_def m_def)
  have mms: "calculateMMS input =
             finish l m (Fin (l / m)) (Fin (l * (l / m / (m - l)))) (Fin (l / m / (m - l)))"
    using calculateMMS_stable [of input] erlangC_one [of l m] lm r s1
    by (auto simp: l_def m_def)
  have e1: "l / m / (1 - l / m) = l / (m - l)" using lm by (simp add: field_simps)
  have e2: "l / m / l = 1 / m" using lm by simp
  have wq: "l / m * (l / m) / (1 - l / m) / l = l / m / (m - l)"
  proof -
    have "l / m * (l / m) / (1 - l / m) / l = (l / m / (1 - l / m)) * (l / m / l)" by simp
    also have "\<dots> = l / (m - l) * (1 / m)" unfolding e1 e2 ..
    also have "\<dots> = l / m / (m - l)" by simp
    finally show ?thesis .
  qed
  have lq: "l / m * (l / m) / (1 - l / m) = l * (l / m / (m - l))"
  proof -
    have "l / m * (l / m) / (1 - l / m) = (l / m / (1 - l / m)) * (l / m)" by simp
    also have "\<dots> = l / (m - l) * (l / m)" unfolding e1 ..
    also have "\<dots> = l * (l / m / (m - l))" by simp
    finally show ?thesis .
  qed
  show ?thesis by (simp only: mm1 mms wq) (simp only: lq)
qed

text \<open>
  Claim C10. For \<open>lambda = 0\<close> and \<open>mu > 0\<close> (and optional fields that pass the
  validation), \<open>calculateMM1\<close>, \<open>calculateMG1\<close> and \<open>calculateGG1\<close> each return
  \<open>stable = true\<close> and no error, with \<open>Wq\<close>, \<open>W\<close> and \<open>L\<close> equal to NaN.
\<close>

theorem zero_rate_gives_NaN:
  assumes "0 < qi_mu input" and "qi_lambda input = 0"
    and "0 \<le> sigma_of input" and "0 \<le> ca_of input" and "0 \<le> cs_of input"
  shows "(stable (calculateMM1 input) \<and> error (calculateMM1 input) = None
          \<and> Wq (calculateMM1 input) = NaN \<and> W (calculateMM1 input) = NaN
          \<and> L (calculateMM1 input) = NaN)
       \<and> (stable (calculateMG1 input) \<and> error (calculateMG1 input) = None
          \<and> Wq (calculateMG1 input) = NaN \<and> W (calculateMG1 input) = NaN
          \<and> L (calculateMG1 input) = NaN)
       \<and> (stable (calculateGG1 input) \<and> error (calculateGG1 input) = None
          \<and> Wq (calculateGG1 input) = NaN \<and> W (calculateGG1 input) = NaN
          \<and> L (calculateGG1 input) = NaN)"
proof -
  have r: "qi_lambda input / qi_mu input < 1" "0 \<le> qi_lambda input" using assms by auto
  have "calculateMM1 input = finish 0 (qi_mu input) (Fin 0) (Fin 0) NaN"
    using calculateMM1_stable [OF assms(1) r(2,1)] assms(2) by simp
  moreover have "calculateMG1 input = finish 0 (qi_mu input) (Fin 0) (Fin 0) NaN"
    using calculateMG1_stable [OF assms(1) r(2) assms(3) r(1)] assms(2)
    by (simp add: mg1_Lq_def)
  moreover have "calculateGG1 input = finish 0 (qi_mu input) (Fin 0) (Fin 0) NaN"
    using calculateGG1_stable [OF assms(1) r(2) assms(3,4,5) r(1)] assms(2)
    by (simp add: gg1_Lq_def)
  ultimately show ?thesis using assms(1) by simp
qed

theorem zero_rate_gives_NaN_witness:
  "Wq (calculateMM1 (example_input 0 2)) = NaN \<and> W (calculateMG1 (example_input 0 2)) = NaN
   \<and> L (calculateGG1 (example_input 0 2)) = NaN \<and> stable (calculateGG1 (example_input 0 2))"
  using zero_rate_gives_NaN [of "example_input 0 2"]
  by (simp add: sigma_of_def ca_of_def cs_of_def)

section \<open>The two exponential models compared in double precision\<close>

lemmas dbl_eval = dbl_def nearest_def scale_down.simps scale_up.simps round_even_def Let_def
  dbl_add_def dbl_sub_def dbl_mul_def dbl_div_def dbl_pow_def js_sub_def js_ge_def

text \<open>
  \<open>calculateMM1({ lambda: 3, mu: 5 })\<close> and \<open>calculateMMS({ lambda: 3, mu: 5, s: 1 })\<close>,
  every operation rounded: \<open>Lq\<close> is 0.8999999999999999 in the first and
  0.8999999999999998 in the second.
\<close>

lemma calculateMM1_dbl_3_5:
  "calculateMM1_dbl ((example_input 3 5)\<lparr>qi_s := Some 1\<rparr>)
   = stable_result (Fin (5404319552844595 / 9007199254740992))
       (Fin (2026619832316723 / 2251799813685248)) (Fin (5404319552844595 / 18014398509481984))
       (Fin (1 / 2)) (Fin (3 / 2))"
  by (simp add: calculateMM1_dbl_def example_input_def dbl_eval)

lemma calculateMMS_dbl_3_5:
  "calculateMMS_dbl ((example_input 3 5)\<lparr>qi_s := Some 1\<rparr>)
   = stable_result (Fin (5404319552844595 / 9007199254740992))
       (Fin (8106479329266891 / 9007199254740992)) (Fin (2702159776422297 / 9007199254740992))
       (Fin (9007199254740991 / 18014398509481984)) (Fin (6755399441055743 / 4503599627370496))"
  by (simp add: calculateMMS_dbl_def erlangC_dbl_def erlangC_loop_dbl.simps factorial_dbl_def
      example_input_def dbl_eval)

text \<open>
  Near saturation the two are far apart. For \<open>mu = 1.5\<close> and \<open>lambda\<close> the binary64 number
  just below it, \<open>1.5 - 2^-52\<close>, the quotient \<open>lambda / mu\<close> rounds to \<open>1 - 2^-53\<close>;
  \<open>calculateMM1\<close> divides by \<open>1 - rho = 2^-53\<close> where \<open>calculateMMS\<close> divides by
  \<open>mu - lambda = 2^-52\<close>, and \<open>Lq\<close> is 9007199254740990 in the first and
  6755399441055742 in the second.
\<close>

lemma calculateMM1_dbl_near_saturation:
  "calculateMM1_dbl ((example_input (6755399441055743 / 4503599627370496) (3 / 2))\<lparr>qi_s := Some 1\<rparr>)
   = stable_result (Fin (9007199254740991 / 9007199254740992)) (Fin 9007199254740990)
       (Fin 6004799503160661) (Fin 6004799503160662) (Fin 9007199254740992)"
  by (simp add: calculateMM1_dbl_def example_input_def dbl_eval)

lemma calculateMMS_dbl_near_saturation:
  "calculateMMS_dbl ((example_input (6755399441055743 / 4503599627370496) (3 / 2))\<lparr>qi_s := Some 1\<rparr>)
   = stable_result (Fin (9007199254740991 / 9007199254740992)) (Fin 6755399441055742)
       (Fin (9007199254740991 / 2)) (Fin 4503599627370496) (Fin 6755399441055743)"
  by (simp add: calculateMMS_dbl_def erlangC_dbl_def erlangC_loop_dbl.simps factorial_dbl_def
      example_input_def dbl_eval)

text \<open>
  What the two share: \<open>s * mu\<close> with \<open>s = 1\<close> is \<open>mu\<close> itself, so the two quotients \<open>rho\<close>
  are the same number, and with it the flag \<open>stable\<close>; neither sets \<open>error\<close>.
\<close>

lemma one_server_same_rho:
  assumes "0 < qi_lambda input" and "qi_lambda input < qi_mu input" and "qi_s input = Some 1"
    and "dbl (qi_mu input) = Fin (qi_mu input)"
  shows "rho (calculateMMS_dbl input) = rho (calculateMM1_dbl input)
         \<and> stable (calculateMMS_dbl input) = stable (calculateMM1_dbl input)
         \<and> error (calculateMMS_dbl input) = None \<and> error (calculateMM1_dbl input) = None"
proof -
  have mu: "0 < qi_mu input" using assms(1,2) by linarith
  have sm: "dbl_mul (Fin 1) (Fin (qi_mu input)) = Fin (qi_mu input)"
    by (simp add: dbl_mul_def assms(4))
  define r where "r = dbl_div (Fin (qi_lambda input)) (Fin (qi_mu input))"
  have mm1: "calculateMM1_dbl input
      = (if js_ge r (Fin 1) then unstable_result r
         else stable_result r (Lq (calculateMM1_dbl input)) (Wq (calculateMM1_dbl input))
                (W (calculateMM1_dbl input)) (L (calculateMM1_dbl input)))"
    using assms(1) mu
    by (simp add: calculateMM1_dbl_def Let_def r_def stable_result_def unstable_result_def)
  have mms: "calculateMMS_dbl input
      = (if js_ge r (Fin 1) then unstable_result r
         else stable_result r (Lq (calculateMMS_dbl input)) (Wq (calculateMMS_dbl input))
                (W (calculateMMS_dbl input)) (L (calculateMMS_dbl input)))"
    using assms(1,3) mu
    by (simp add: calculateMMS_dbl_def Let_def sm r_def stable_result_def unstable_result_def)
  have "rho (calculateMM1_dbl input) = r" "rho (calculateMMS_dbl input) = r"
    "stable (calculateMM1_dbl input) = (\<not> js_ge r (Fin 1))"
    "stable (calculateMMS_dbl input) = (\<not> js_ge r (Fin 1))"
    "error (calculateMM1_dbl input) = None" "error (calculateMMS_dbl input) = None"
    by (subst mm1 mms, simp add: stable_result_def unstable_result_def)+
  then show ?thesis by simp
qed

text \<open>
  Claim C9 says that for \<open>0 < lambda < mu\<close>, \<open>calculateMMS\<close> with \<open>s = 1\<close> returns the same
  \<open>rho\<close>, \<open>stable\<close>, \<open>Lq\<close>, \<open>Wq\<close>, \<open>W\<close> and \<open>L\<close> as \<open>calculateMM1\<close>. The two compute the
  four metrics by different sequences of operations, and the rounded results differ: at
  \<open>lambda = 3\<close>, \<open>mu = 5\<close> in the last bits of \<open>Lq\<close>, \<open>Wq\<close>, \<open>W\<close> and \<open>L\<close>.
\<close>

theorem one_server_metrics_differ_counterexample:
  "(0::real) < 3 \<and> (3::real) < 5 \<and> dbl 3 = Fin 3 \<and> dbl 5 = Fin 5
   \<and> Lq (calculateMM1_dbl ((example_input 3 5)\<lparr>qi_s := Some 1\<rparr>))
       = Fin (2026619832316723 / 2251799813685248)
   \<and> Lq (calculateMMS_dbl ((example_input 3 5)\<lparr>qi_s := Some 1\<rparr>))
       = Fin (8106479329266891 / 9007199254740992)
   \<and> Lq (calculateMMS_dbl ((example_input 3 5)\<lparr>qi_s := Some 1\<rparr>))
       \<noteq> Lq (calculateMM1_dbl ((example_input 3 5)\<lparr>qi_s := Some 1\<rparr>))
   \<and> Wq (calculateMMS_dbl ((example_input 3 5)\<lparr>qi_s := Some 1\<rparr>))
       \<noteq> Wq (calculateMM1_dbl ((example_input 3 5)\<lparr>qi_s := Some 1\<rparr>))
   \<and> W (calculateMMS_dbl ((example_input 3 5)\<lparr>qi_s := Some 1\<rparr>))
       \<noteq> W (calculateMM1_dbl ((example_input 3 5)\<lparr>qi_s := Some 1\<rparr>))
   \<and> L (calculateMMS_dbl ((example_input 3 5)\<lparr>qi_s := Some 1\<rparr>))
       \<noteq> L (calculateMM1_dbl ((example_input 3 5)\<lparr>qi_s := Some 1\<rparr>))"
proof -
  have "dbl 3 = Fin 3" "dbl 5 = Fin 5" by (simp_all add: dbl_eval)
  then show ?thesis
    unfolding calculateMM1_dbl_3_5 calculateMMS_dbl_3_5 by (simp add: stable_result_def)
qed

text \<open>
  Claim C9, amended. For \<open>0 < lambda < mu\<close>, \<open>mu\<close> a binary64 number, \<open>calculateMMS\<close> with
  \<open>s = 1\<close> returns the same \<open>rho\<close> and the same flag \<open>stable\<close> as \<open>calculateMM1\<close>, and
  neither sets \<open>error\<close>; \<open>Lq\<close>, \<open>Wq\<close>, \<open>W\<close> and \<open>L\<close> of the two are equal in exact
  arithmetic, where the Erlang-C formula at \<open>s = 1\<close> reduces to the M/M/1 closed form.
\<close>

theorem mms_with_one_server_agrees_with_mm1:
  assumes "0 < qi_lambda input" and "qi_lambda input < qi_mu input" and "qi_s input = Some 1"
    and "dbl (qi_mu input) = Fin (qi_mu input)"
  shows "rho (calculateMMS_dbl input) = rho (calculateMM1_dbl input)
         \<and> stable (calculateMMS_dbl input) = stable (calculateMM1_dbl input)
         \<and> error (calculateMMS_dbl input) = None \<and> error (calculateMM1_dbl input) = None
         \<and> calculateMMS input = calculateMM1 input"
  using one_server_same_rho [OF assms] erlang_formula_at_one_server [OF assms(1-3)] by simp

theorem mms_with_one_server_agrees_with_mm1_witness:
  "(0::real) < 3 \<and> (3::real) < 5 \<and> dbl 5 = Fin 5
   \<and> rho (calculateMMS_dbl ((example_input 3 5)\<lparr>qi_s := Some 1\<rparr>))
       = Fin (5404319552844595 / 9007199254740992)
   \<and> rho (calculateMM1_dbl ((example_input 3 5)\<lparr>qi_s := Some 1\<rparr>))
       = Fin (5404319552844595 / 9007199254740992)
   \<and> stable (calculateMMS_dbl ((example_input 3 5)\<lparr>qi_s := Some 1\<rparr>))
   \<and> stable (calculateMM1_dbl ((example_input 3 5)\<lparr>qi_s := Some 1\<rparr>))
   \<and> calculateMMS ((example_input 3 5)\<lparr>qi_s := Some 1\<rparr>)
       = calculateMM1 ((example_input 3 5)\<lparr>qi_s := Some 1\<rparr>)
   \<and> calculateMM1 ((example_input 3 5)\<lparr>qi_s := Some 1\<rparr>)
       = stable_result (Fin (3 / 5)) (Fin (9 / 10)) (Fin (3 / 10)) (Fin (1 / 2)) (Fin (3 / 2))"
proof -
  have d: "dbl 5 = Fin 5" by (simp add: dbl_eval)
  have m: "calculateMM1 ((example_input 3 5)\<lparr>qi_s := Some 1\<rparr>)
       = stable_result (Fin (3 / 5)) (Fin (9 / 10)) (Fin (3 / 10)) (Fin (1 / 2)) (Fin (3 / 2))"
    by (simp add: calculateMM1_def Let_def)
  show ?thesis
    using mms_with_one_server_agrees_with_mm1 [of "(example_input 3 5)\<lparr>qi_s := Some 1\<rparr>"] d m
    by (simp add: calculateMM1_dbl_3_5 calculateMMS_dbl_3_5 stable_result_def)
qed


section \<open>Properties of the generators\<close>

subsection \<open>The service time generators\<close>

lemma service_time_max_ceil:
  assumes "x = Fin y"
  shows "service_time (js_max (Fin 1) (js_ceil x))"
  unfolding assms by (simp add: service_time_def is_int_def)

lemma uniform_time_ok: "service_time (uniform_time a b u)"
  unfolding uniform_time_def
  by (rule service_time_max_ceil [of _ "a + (b - a) * u"]) simp

lemma uniform_service_times:
  "list_all service_time (generateUniformServiceTimes a b us)"
  by (simp add: generateUniformServiceTimes_def list_all_iff uniform_time_ok)

lemma normal_time_ok:
  assumes "uniform_draw r1"
  shows "service_time (normal_time mu sigma (r1, r2))"
proof -
  define r where "r = (if r1 = 0 then 1 / 10000 else r1)"
  have r: "0 < r" "r < 1" using assms by (auto simp: r_def uniform_draw_def)
  then have "ln r \<le> 0" by simp
  then have "\<not> - 2 * ln r < 0" by simp
  then have "js_mul (js_sqrt (js_mul (Fin (- 2)) (js_log (Fin r))))
                (js_cos (js_mul (js_mul (Fin 2) (Fin pi)) (Fin r2)))
             = Fin (sqrt (- 2 * ln r) * cos (2 * pi * r2))"
    using r by simp
  then show ?thesis
    unfolding normal_time_def Let_def fst_conv snd_conv r_def [symmetric]
    by (intro service_time_max_ceil [of _ "mu + sigma * (sqrt (- 2 * ln r) * cos (2 * pi * r2))"])
       simp
qed

lemma normal_service_times:
  assumes "list_all (\<lambda>(r1, r2). uniform_draw r1 \<and> uniform_draw r2) rs"
  shows "list_all service_time (generateNormalServiceTimes mu sigma rs)"
  using assms
  by (auto simp: generateNormalServiceTimes_def list_all_iff normal_time_ok)

lemma exponential_time_ok:
  assumes "0 < u"
  shows "service_time (exponential_time mu u)"
  unfolding exponential_time_def
  by (rule service_time_max_ceil [of _ "- mu * ln u"]) (use assms in simp)

lemma exponential_service_times:
  assumes "list_all (\<lambda>u. 0 < u) us"
  shows "list_all service_time (generateServiceTimes mu us)"
  using assms
  by (simp add: generateServiceTimes_def list_all_iff exponential_time_ok)

text \<open>
  Claim C7 says that each of the three generators returns an integer of at least 1 for
  every draw in \<open>[0, 1)\<close>. The uniform and the normal generator do
  (\<open>uniform_service_times\<close>, \<open>normal_service_times\<close>), and the exponential one does for a
  draw above zero (\<open>exponential_service_times\<close>). For the draw 0 the exponential generator
  computes \<open>-mu * Math.log(0)\<close>, which is \<open>+Infinity\<close> for a positive \<open>mu\<close>, and returns
  it: the guard that the normal generator has for this draw is missing.
\<close>

theorem exponential_service_time_at_zero_draw:
  "uniform_draw 0 \<and> generateServiceTimes 5 [0] = [PInf] \<and> service_time PInf = False
   \<and> list_all service_time (generateNormalServiceTimes 5 1 [(0, 0)])"
  using normal_service_times [of "[(0, 0)]" 5 1]
  by (simp add: generateServiceTimes_def exponential_time_def uniform_draw_def service_time_def
      inf_times_def)


subsection \<open>The arrival table\<close>

lemma js_round_mono: "x \<le> y \<Longrightarrow> js_round x \<le> js_round y"
  unfolding js_round_def by (simp add: floor_mono)

lemma round5_below_threshold:
  assumes "c < threshold"
  shows "js_round (c * 100000) / 100000 \<le> threshold"
proof -
  have "c * 100000 + 1 / 2 < 99999 + 1" using assms by (simp add: threshold_def)
  then have "\<lfloor>c * 100000 + 1 / 2\<rfloor> < 99999 + 1" by (simp only: floor_less_iff of_int_add of_int_numeral of_int_1)
  then have "\<lfloor>c * 100000 + 1 / 2\<rfloor> \<le> 99999" by simp
  then have "js_round (c * 100000) \<le> 99999" unfolding js_round_def by linarith
  then show ?thesis by (simp add: threshold_def)
qed

lemma poisson_loop_sorted:
  assumes "0 \<le> lambda" and "0 \<le> currentP" and "sorted cs"
    and "\<forall>x\<in>set cs. x \<le> js_round (cum * 100000) / 100000 \<and> x \<le> threshold"
  shows "sorted (fst (poisson_loop lambda currentP cum k cs ns))
         \<and> fst (poisson_loop lambda currentP cum k cs ns) \<noteq> []
         \<and> (\<forall>x\<in>set (butlast (fst (poisson_loop lambda currentP cum k cs ns))). x \<le> threshold)"
  using assms(2-)
proof (induction "maxK - k" arbitrary: currentP cum k cs ns rule: less_induct)
  case less
  note prems = assms(1) less.prems
  define cum' where "cum' = cum + currentP"
  define e where "e = js_round (cum' * 100000) / 100000"
  have mono: "js_round (cum * 100000) / 100000 \<le> e"
    using prems(2) js_round_mono [of "cum * 100000" "cum' * 100000"]
    by (simp add: e_def cum'_def divide_right_mono)
  have le: "\<forall>x\<in>set cs. x \<le> e" using prems(4) mono by fastforce
  have srt: "sorted (cs @ [e])" using prems(3) le by (simp add: sorted_append)
  show ?case
  proof (cases "threshold \<le> cum' \<or> maxK \<le> k")
    case True
    then have "poisson_loop lambda currentP cum k cs ns = (cs @ [e], ns @ [k])"
      by (subst poisson_loop.simps) (simp add: Let_def cum'_def e_def)
    then show ?thesis using srt prems(4) by simp
  next
    case False
    then have eq: "poisson_loop lambda currentP cum k cs ns
        = poisson_loop lambda (currentP * (lambda / real (k + 1))) cum' (k + 1) (cs @ [e]) (ns @ [k])"
      by (subst poisson_loop.simps) (simp add: Let_def cum'_def e_def)
    have p: "0 \<le> currentP * (lambda / real (k + 1))" using prems(1,2) by simp
    have et: "e \<le> threshold" using False round5_below_threshold [of cum'] by (simp add: e_def)
    have inv: "\<forall>x\<in>set (cs @ [e]). x \<le> js_round (cum' * 100000) / 100000 \<and> x \<le> threshold"
      using le et prems(4) by (auto simp: e_def)
    have dec: "maxK - (k + 1) < maxK - k" using False by linarith
    show ?thesis
      unfolding eq by (rule less.hyps [OF dec p srt inv])
  qed
qed

lemma clamp_last_sorted:
  assumes "sorted cs" and "cs \<noteq> []" and "\<forall>x\<in>set (butlast cs). x \<le> threshold"
  shows "sorted (cs[length cs - 1 := min (cs ! (length cs - 1)) 1])
         \<and> last (cs[length cs - 1 := min (cs ! (length cs - 1)) 1]) \<le> 1"
proof -
  obtain bs b where cs: "cs = bs @ [b]" using assms(2) by (metis rev_exhaust)
  have upd: "cs[length cs - 1 := min (cs ! (length cs - 1)) 1] = bs @ [min b 1]"
    by (simp add: cs)
  have "\<forall>x\<in>set bs. x \<le> min b 1"
    using assms(1,3) by (auto simp: cs sorted_append threshold_def)
  then show ?thesis using assms(1) by (simp add: upd cs sorted_append)
qed

text \<open>
  Claim C3 says that for every \<open>lambda > 0\<close> the cumulative entries are non-decreasing
  and the last one is exactly 1. The last entry is \<open>Math.min(last, 1.0)\<close>, which lowers
  an entry above 1 and leaves any other as it is: for \<open>lambda = 0.00001\<close> the loop stops
  at \<open>k = 0\<close> with \<open>cum = exp(-0.00001)\<close>, between 0.99999 and 0.999995, which rounds to
  0.99999, and the table is this one entry.
\<close>

theorem last_entry_below_one_counterexample:
  "(0::real) < 1 / 100000
   \<and> cpCum (buildPoissonCDF (1 / 100000)) = [99999 / 100000]
   \<and> last (cpCum (buildPoissonCDF (1 / 100000))) \<noteq> 1"
proof -
  define p0 :: real where "p0 = exp (- (1 / 100000))"
  have lo: "99999 / 100000 \<le> p0"
    using exp_ge_add_one_self [of "- (1 / 100000) :: real"] by (simp add: p0_def)
  have "1 + 1 / 100000 \<le> exp (1 / 100000 :: real)"
    by (rule exp_ge_add_one_self)
  then have "inverse (exp (1 / 100000 :: real)) \<le> inverse (1 + 1 / 100000)"
    by (intro le_imp_inverse_le) simp_all
  then have hi: "p0 \<le> 100000 / 100001"
    by (simp add: p0_def exp_minus)
  have "\<lfloor>p0 * 100000 + 1 / 2\<rfloor> = 99999"
    using lo hi by (intro floor_unique) simp_all
  then have r: "js_round (p0 * 100000) = 99999" by (simp add: js_round_def)
  have "poisson_loop (1 / 100000) p0 0 0 [] [] = ([99999 / 100000], [0])"
    using lo r by (subst poisson_loop.simps) (simp add: Let_def threshold_def)
  then have "cpCum (buildPoissonCDF (1 / 100000)) = [99999 / 100000]"
    by (simp add: buildPoissonCDF_def p0_def [symmetric] Let_def)
  then show ?thesis by simp
qed

lemma round5_at_threshold:
  assumes "threshold \<le> c"
  shows "threshold \<le> js_round (c * 100000) / 100000"
proof -
  have "(99999::real) \<le> c * 100000" using assms by (simp add: threshold_def)
  then have "js_round 99999 \<le> js_round (c * 100000)" by (rule js_round_mono)
  moreover have "js_round 99999 = 99999" by (simp add: js_round_def)
  ultimately show ?thesis by (simp add: threshold_def)
qed

lemma poisson_loop_reach:
  assumes "k \<le> maxK"
  shows "threshold \<le> last (fst (poisson_loop lambda currentP cum k cs ns))
         \<or> length (fst (poisson_loop lambda currentP cum k cs ns)) = length cs + (maxK - k) + 1"
  using assms
proof (induction "maxK - k" arbitrary: currentP cum k cs ns rule: less_induct)
  case less
  define cum' where "cum' = cum + currentP"
  define e where "e = js_round (cum' * 100000) / 100000"
  show ?case
  proof (cases "threshold \<le> cum' \<or> maxK \<le> k")
    case True
    have eq: "poisson_loop lambda currentP cum k cs ns = (cs @ [e], ns @ [k])"
      using True by (subst poisson_loop.simps) (simp add: Let_def cum'_def e_def)
    show ?thesis
    proof (cases "threshold \<le> cum'")
      case True
      then have "threshold \<le> e" unfolding e_def by (rule round5_at_threshold)
      then show ?thesis by (simp add: eq)
    next
      case False
      then have "k = maxK" using True less.prems by simp
      then have "length (cs @ [e]) = length cs + (maxK - k) + 1" by simp
      then show ?thesis unfolding eq fst_conv by (rule disjI2)
    qed
  next
    case False
    then have eq: "poisson_loop lambda currentP cum k cs ns
        = poisson_loop lambda (currentP * (lambda / real (k + 1))) cum' (k + 1) (cs @ [e]) (ns @ [k])"
      by (subst poisson_loop.simps) (simp add: Let_def cum'_def e_def)
    have dec: "maxK - (k + 1) < maxK - k" and le: "k + 1 \<le> maxK" using False by linarith+
    have len: "length (cs @ [e]) + (maxK - (k + 1)) + 1 = length cs + (maxK - k) + 1"
      using le by simp
    show ?thesis
      unfolding eq using less.hyps [OF dec le, of "currentP * (lambda / real (k + 1))" cum' "cs @ [e]" "ns @ [k]"]
      unfolding len .
  qed
qed

lemma clamp_last_reach:
  assumes "cs \<noteq> []" and "threshold \<le> last cs"
  shows "threshold \<le> last (cs[length cs - 1 := min (cs ! (length cs - 1)) 1])"
proof -
  obtain bs b where cs: "cs = bs @ [b]" using assms(1) by (metis rev_exhaust)
  have upd: "cs[length cs - 1 := min (cs ! (length cs - 1)) 1] = bs @ [min b 1]"
    by (simp add: cs)
  show ?thesis using assms(2) by (simp add: upd cs threshold_def)
qed

lemma table_at_one_thousandth:
  "cpCum (buildPoissonCDF (1 / 1000)) = [999 / 1000, 1]"
proof -
  define p0 :: real where "p0 = exp (- (1 / 1000))"
  have lo: "999 / 1000 \<le> p0"
    using exp_ge_add_one_self [of "- (1 / 1000) :: real"] by (simp add: p0_def)
  have "1 + 1 / 1000 \<le> exp (1 / 1000 :: real)"
    by (rule exp_ge_add_one_self)
  then have "inverse (exp (1 / 1000 :: real)) \<le> inverse (1 + 1 / 1000)"
    by (intro le_imp_inverse_le) simp_all
  then have hi: "p0 \<le> 1000 / 1001"
    by (simp add: p0_def exp_minus)
  have "\<lfloor>p0 * 100000 + 1 / 2\<rfloor> = 99900"
    using lo hi by (intro floor_unique) simp_all
  then have r0: "js_round (p0 * 100000) = 99900" by (simp add: js_round_def)
  define c1 where "c1 = p0 + p0 * (1 / 1000)"
  have c1: "999999 / 1000000 \<le> c1" "c1 \<le> 1" using lo hi by (simp_all add: c1_def)
  have "\<lfloor>c1 * 100000 + 1 / 2\<rfloor> = 100000"
    using c1 by (intro floor_unique) simp_all
  then have r1: "js_round (c1 * 100000) = 100000" by (simp add: js_round_def)
  have stop: "poisson_loop (1 / 1000) (p0 * (1 / 1000)) p0 1 [999 / 1000] [0]
      = ([999 / 1000, 1], [0, 1])"
    using c1 r1 by (subst poisson_loop.simps) (simp add: Let_def threshold_def c1_def)
  have "poisson_loop (1 / 1000) p0 0 0 [] [] = ([999 / 1000, 1], [0, 1])"
    using hi r0 stop by (subst poisson_loop.simps) (simp add: Let_def threshold_def maxK_def)
  then show ?thesis
    by (simp add: buildPoissonCDF_def p0_def [symmetric] Let_def)
qed

text \<open>
  Claim C3, amended. For every \<open>lambda > 0\<close> the table is not empty, its cumulative
  entries are non-decreasing, and the last one is at most 1 and at least the threshold
  0.99999, unless the loop stopped at \<open>k = maxK\<close>, when the table has 501 entries.
\<close>

theorem cumulative_entries_sorted_up_to_threshold:
  assumes "0 < lambda"
  shows "cpCum (buildPoissonCDF lambda) \<noteq> []
         \<and> sorted (cpCum (buildPoissonCDF lambda))
         \<and> last (cpCum (buildPoissonCDF lambda)) \<le> 1
         \<and> (threshold \<le> last (cpCum (buildPoissonCDF lambda))
            \<or> length (cpCum (buildPoissonCDF lambda)) = maxK + 1)"
proof -
  obtain cs ns where loop: "poisson_loop lambda (exp (- lambda)) 0 0 [] [] = (cs, ns)"
    by (cases "poisson_loop lambda (exp (- lambda)) 0 0 [] []") blast
  have "sorted (fst (poisson_loop lambda (exp (- lambda)) 0 0 [] []))
         \<and> fst (poisson_loop lambda (exp (- lambda)) 0 0 [] []) \<noteq> []
         \<and> (\<forall>x\<in>set (butlast (fst (poisson_loop lambda (exp (- lambda)) 0 0 [] []))). x \<le> threshold)"
    using assms by (intro poisson_loop_sorted) simp_all
  then have cs: "sorted cs" "cs \<noteq> []" "\<forall>x\<in>set (butlast cs). x \<le> threshold"
    by (simp_all add: loop)
  have "threshold \<le> last (fst (poisson_loop lambda (exp (- lambda)) 0 0 [] []))
         \<or> length (fst (poisson_loop lambda (exp (- lambda)) 0 0 [] [])) = length ([]::real list) + (maxK - 0) + 1"
    by (rule poisson_loop_reach) simp
  then have reach: "threshold \<le> last cs \<or> length cs = maxK + 1" by (simp add: loop)
  have eq: "cpCum (buildPoissonCDF lambda) = cs[length cs - 1 := min (cs ! (length cs - 1)) 1]"
    using cs(2) by (simp add: buildPoissonCDF_def loop Let_def)
  have "threshold \<le> last (cpCum (buildPoissonCDF lambda))
        \<or> length (cpCum (buildPoissonCDF lambda)) = maxK + 1"
  proof (cases "threshold \<le> last cs")
    case True
    then show ?thesis unfolding eq using clamp_last_reach [OF cs(2)] by blast
  next
    case False
    then have "length cs = maxK + 1" using reach by blast
    then show ?thesis unfolding eq by simp
  qed
  moreover have "cpCum (buildPoissonCDF lambda) \<noteq> []" unfolding eq using cs(2) by simp
  ultimately show ?thesis unfolding eq using clamp_last_sorted [OF cs] by blast
qed

theorem cumulative_entries_sorted_up_to_threshold_witness:
  "(0::real) < 1 / 1000
   \<and> cpCum (buildPoissonCDF (1 / 1000)) = [999 / 1000, 1]
   \<and> sorted (cpCum (buildPoissonCDF (1 / 1000)))
   \<and> last (cpCum (buildPoissonCDF (1 / 1000))) \<le> 1
   \<and> threshold \<le> last (cpCum (buildPoissonCDF (1 / 1000)))"
  using cumulative_entries_sorted_up_to_threshold [of "1 / 1000"] table_at_one_thousandth
  by (simp add: threshold_def)


section \<open>Properties of the schedulers\<close>

subsection \<open>Labels\<close>

lemma digit_inj:
  assumes "d < 10" and "d' < 10" and "digit d = digit d'"
  shows "d = d'"
proof -
  have "of_char (digit d) = (48 + d) mod 256" "of_char (digit d') = (48 + d') mod 256"
    by (simp_all add: digit_def)
  then have "(48 + d) mod 256 = (48 + d') mod 256" using assms(3) by simp
  then show ?thesis using assms(1,2) by simp
qed

lemma decimal_not_Nil: "decimal n \<noteq> []"
  by (subst decimal.simps) simp

lemma decimal_inj: "decimal n = decimal m \<Longrightarrow> n = m"
proof (induction n arbitrary: m rule: decimal.induct)
  case (1 n)
  show ?case
  proof (cases "n < 10")
    case True
    then have n: "decimal n = [digit n]" by (subst decimal.simps) simp
    show ?thesis
    proof (cases "m < 10")
      case mt: True
      then have "decimal m = [digit m]" by (subst decimal.simps) simp
      then show ?thesis using n "1.prems" True mt digit_inj by simp
    next
      case False
      then have "decimal m = decimal (m div 10) @ [digit (m mod 10)]"
        by (subst decimal.simps) simp
      then show ?thesis using n "1.prems" decimal_not_Nil [of "m div 10"] by simp
    qed
  next
    case False
    then have n: "decimal n = decimal (n div 10) @ [digit (n mod 10)]"
      by (subst decimal.simps) simp
    show ?thesis
    proof (cases "m < 10")
      case True
      then have "decimal m = [digit m]" by (subst decimal.simps) simp
      then show ?thesis using n "1.prems" decimal_not_Nil [of "n div 10"] by simp
    next
      case mf: False
      then have "decimal m = decimal (m div 10) @ [digit (m mod 10)]"
        by (subst decimal.simps) simp
      then have eq: "decimal (n div 10) = decimal (m div 10)" "digit (n mod 10) = digit (m mod 10)"
        using n "1.prems" by simp_all
      have "n div 10 = m div 10" using "1.IH" [OF False eq(1)] .
      moreover have "n mod 10 = m mod 10" using digit_inj [OF _ _ eq(2)] by simp
      ultimately show ?thesis by (metis div_mult_mod_eq)
    qed
  qed
qed

lemma customer_label_inj [simp]: "customer_label i = customer_label j \<longleftrightarrow> i = j"
  using decimal_inj [of "i + 1" "j + 1"] by (auto simp: customer_label_def)

subsection \<open>Sums\<close>

lemma sum_list_update_int:
  fixes xs :: "int list"
  shows "i < length xs \<Longrightarrow> sum_list (xs[i := v]) = sum_list xs - xs ! i + v"
proof (induction xs arbitrary: i)
  case Nil
  then show ?case by simp
next
  case (Cons x xs)
  then show ?case by (cases i) simp_all
qed

lemma sum_list_nonneg_int:
  fixes xs :: "int list"
  shows "\<forall>i < length xs. 0 \<le> xs ! i \<Longrightarrow> 0 \<le> sum_list xs"
  by (metis in_set_conv_nth sum_list_nonneg)

lemma chunk_sum_Nil [simp]: "chunk_sum lbl [] = 0"
  by (simp add: chunk_sum_def)

lemma chunk_sum_snoc [simp]:
  "chunk_sum lbl (cs @ [c]) = chunk_sum lbl cs + (if ch_label c = lbl then ch_end c - ch_start c else 0)"
  by (simp add: chunk_sum_def)


subsection \<open>The selection\<close>

lemma pick_priority_in: "pick_priority priorities w pool \<in> insert w (set pool)"
  unfolding pick_priority_def
proof (induction pool arbitrary: w)
  case Nil
  then show ?case by simp
next
  case (Cons a pool)
  show ?case using Cons.IH [of "if priorities ! a < priorities ! w then a else w"] by auto
qed

lemma select_waiting_in:
  assumes "pool \<noteq> []"
  shows "select_waiting priorities usePriority pool \<in> set pool"
proof (cases usePriority)
  case True
  then show ?thesis
    using pick_priority_in [of priorities "hd pool" pool] assms
    by (auto simp: select_waiting_def)
next
  case False
  then show ?thesis using assms by (simp add: select_waiting_def)
qed

lemma waiting_iff:
  "i \<in> set (waiting arrivalTimes st) \<longleftrightarrow>
     i < length arrivalTimes \<and> \<not> servedMask st ! i \<and> arrivalTimes ! i \<le> currentTime st"
  by (auto simp: waiting_def)

subsection \<open>The next arrival\<close>

lemma nextArr_fold_None:
  "foldl (\<lambda>acc i. if \<not> served ! i \<and> (case acc of None \<Rightarrow> True | Some a \<Rightarrow> arr ! i < a)
                   then Some (arr ! i) else acc) acc js = None
   \<longleftrightarrow> acc = None \<and> (\<forall>i \<in> set js. served ! i)"
  by (induction js arbitrary: acc) (auto split: option.splits)

lemma nextArr_fold_Some:
  "foldl (\<lambda>acc i. if \<not> served ! i \<and> (case acc of None \<Rightarrow> True | Some a \<Rightarrow> arr ! i < a)
                   then Some (arr ! i) else acc) acc js = Some a
   \<Longrightarrow> acc = Some a \<or> (\<exists>i \<in> set js. \<not> served ! i \<and> arr ! i = a)"
proof (induction js arbitrary: acc)
  case Nil
  then show ?case by simp
next
  case (Cons j js)
  from Cons.IH [OF Cons.prems [simplified foldl_Cons]]
  show ?case by (auto split: if_splits)
qed

lemma nextArr_None:
  "nextArr arr served = None \<longleftrightarrow> (\<forall>i < length arr. served ! i)"
  unfolding nextArr_def nextArr_fold_None by auto

lemma nextArr_Some:
  assumes "nextArr arr served = Some a"
  shows "\<exists>i < length arr. \<not> served ! i \<and> arr ! i = a"
  using nextArr_fold_Some [OF assms [unfolded nextArr_def]] by auto


subsection \<open>The single-server loop keeps its invariant\<close>

lemma serve_simps:
  assumes "c < length (remainingTimes st)"
  shows "currentTime (serve c wd st) = currentTime st + wd"
    and "remainingTimes (serve c wd st) = (remainingTimes st)[c := remainingTimes st ! c - wd]"
    and "servedMask (serve c wd st)
         = (if remainingTimes st ! c = wd then (servedMask st)[c := True] else servedMask st)"
    and "chunks (serve c wd st)
         = chunks st @ [\<lparr>ch_label = customer_label c, ch_start = currentTime st,
                          ch_end = currentTime st + wd, ch_server = None\<rparr>]"
    and "serviceStarts (serve c wd st)
         = (if serviceStarts st ! c = - 1 then (serviceStarts st)[c := currentTime st]
            else serviceStarts st)"
    and "serviceEnds (serve c wd st)
         = (if remainingTimes st ! c = wd then (serviceEnds st)[c := currentTime st + wd]
            else serviceEnds st)"
  using assms by (simp_all add: serve_def Let_def)

lemma inv_len_serve:
  assumes "inv_len arr svc st" and "c < length arr"
  shows "inv_len arr svc (serve c wd st)"
proof -
  have c: "c < length (remainingTimes st)" using assms by (simp add: inv_len_def)
  show ?thesis using assms(1) by (simp add: inv_len_def serve_simps [OF c])
qed

lemma inv_rem_serve:
  assumes "inv_len arr svc st" and "inv_rem st" and "c < length arr"
    and "\<not> servedMask st ! c" and "0 < wd" and "wd \<le> remainingTimes st ! c"
  shows "inv_rem (serve c wd st)"
proof -
  have c: "c < length (remainingTimes st)" "c < length (servedMask st)"
    using assms by (simp_all add: inv_len_def)
  show ?thesis
    unfolding inv_rem_def serve_simps [OF c(1)]
  proof (intro allI impI)
    fix i assume "i < length ((remainingTimes st)[c := remainingTimes st ! c - wd])"
    then have i: "i < length (remainingTimes st)" by simp
    show "((if remainingTimes st ! c = wd then (servedMask st)[c := True] else servedMask st) ! i
            \<longrightarrow> (remainingTimes st)[c := remainingTimes st ! c - wd] ! i = 0)
          \<and> (\<not> (if remainingTimes st ! c = wd then (servedMask st)[c := True] else servedMask st) ! i
            \<longrightarrow> 0 < (remainingTimes st)[c := remainingTimes st ! c - wd] ! i)"
    proof (cases "i = c")
      case True
      then show ?thesis using c assms(4,5,6) by simp
    next
      case False
      then show ?thesis using assms(2) i by (simp add: inv_rem_def)
    qed
  qed
qed

lemma inv_sum_serve:
  assumes "inv_len arr svc st" and "inv_sum svc st" and "c < length arr"
  shows "inv_sum svc (serve c wd st)"
proof -
  have c: "c < length (remainingTimes st)" using assms by (simp add: inv_len_def)
  show ?thesis
    unfolding inv_sum_def serve_simps [OF c]
  proof (intro allI impI)
    fix i assume i: "i < length svc"
    have old: "chunk_sum (customer_label i) (chunks st) = svc ! i - remainingTimes st ! i"
      using assms(2) i by (simp add: inv_sum_def)
    show "chunk_sum (customer_label i)
            (chunks st @ [\<lparr>ch_label = customer_label c, ch_start = currentTime st,
                            ch_end = currentTime st + wd, ch_server = None\<rparr>])
          = svc ! i - (remainingTimes st)[c := remainingTimes st ! c - wd] ! i"
      using old c by (cases "i = c") simp_all
  qed
qed

lemma inv_end_serve:
  assumes "inv_len arr svc st" and "inv_end st" and "c < length arr" and "\<not> servedMask st ! c"
  shows "inv_end (serve c wd st)"
proof -
  have c: "c < length (remainingTimes st)" "c < length (servedMask st)"
    "c < length (serviceEnds st)"
    using assms by (simp_all add: inv_len_def)
  show ?thesis
    unfolding inv_end_def
  proof (intro allI impI)
    fix i
    assume i: "i < length (servedMask (serve c wd st))" and s: "servedMask (serve c wd st) ! i"
    have i': "i < length (servedMask st)" using i by (simp add: serve_simps [OF c(1)] split: if_splits)
    show "\<exists>ch\<in>set (chunks (serve c wd st)).
            ch_label ch = customer_label i \<and> ch_end ch = serviceEnds (serve c wd st) ! i"
    proof (cases "i = c")
      case True
      then have "remainingTimes st ! c = wd"
        using s assms(4) by (simp add: serve_simps [OF c(1)] split: if_splits)
      then show ?thesis using True c by (simp add: serve_simps [OF c(1)])
    next
      case False
      then have "servedMask st ! i" using s by (simp add: serve_simps [OF c(1)] split: if_splits)
      then obtain ch where "ch \<in> set (chunks st)" "ch_label ch = customer_label i"
        "ch_end ch = serviceEnds st ! i"
        using assms(2) i' by (auto simp: inv_end_def)
      then show ?thesis using False by (auto simp: serve_simps [OF c(1)])
    qed
  qed
qed

lemma inv_time_serve:
  assumes "inv_len arr svc st" and "inv_time st" and "c < length arr" and "0 < wd"
  shows "inv_time (serve c wd st)"
proof -
  have c: "c < length (remainingTimes st)" using assms by (simp add: inv_len_def)
  have t: "0 \<le> currentTime st"
    and e: "\<And>i. i < length (serviceEnds st) \<Longrightarrow> serviceEnds st ! i \<le> currentTime st"
    and b: "\<And>i. i < length (serviceStarts st) \<Longrightarrow> serviceStarts st ! i \<le> currentTime st"
    using assms(2) by (auto simp: inv_time_def)
  have "serviceEnds (serve c wd st) ! i \<le> currentTime (serve c wd st)"
    if "i < length (serviceEnds (serve c wd st))" for i
    using that e [of i] assms(4)
    by (cases "i = c") (auto simp: serve_simps [OF c] split: if_splits)
  moreover have "serviceStarts (serve c wd st) ! i \<le> currentTime (serve c wd st)"
    if "i < length (serviceStarts (serve c wd st))" for i
    using that b [of i] assms(4)
    by (cases "i = c") (auto simp: serve_simps [OF c] split: if_splits)
  ultimately show ?thesis using t assms(4) by (simp add: inv_time_def serve_simps(1) [OF c])
qed

lemma inv_busy_serve:
  assumes "inv_len arr svc st" and "inv_time st" and "inv_busy svc st" and "c < length arr"
  shows "inv_busy svc (serve c wd st)"
proof -
  have c: "c < length (remainingTimes st)" "c < length (serviceStarts st)"
    using assms by (simp_all add: inv_len_def)
  have t: "0 \<le> currentTime st"
    and b: "\<And>i. i < length (serviceStarts st) \<Longrightarrow> serviceStarts st ! i \<le> currentTime st"
    using assms(2) by (auto simp: inv_time_def)
  have sum: "sum_list (remainingTimes (serve c wd st)) = sum_list (remainingTimes st) - wd"
    using c by (simp add: serve_simps [OF c(1)] sum_list_update_int)
  have len: "length (serviceStarts (serve c wd st)) = length (serviceStarts st)"
    by (simp add: serve_simps [OF c(1)])
  have tm: "currentTime (serve c wd st) = currentTime st + wd"
    by (simp add: serve_simps [OF c(1)])
  consider (fresh) "sum_list (remainingTimes st) = sum_list svc"
    | (busy) j where "j < length (serviceStarts st)" "serviceStarts st ! j \<noteq> - 1"
        "sum_list svc - sum_list (remainingTimes st) \<le> currentTime st - serviceStarts st ! j"
    using assms(3) by (auto simp: inv_busy_def)
  then have "\<exists>j < length (serviceStarts st). serviceStarts (serve c wd st) ! j \<noteq> - 1
        \<and> sum_list svc - (sum_list (remainingTimes st) - wd)
          \<le> currentTime st + wd - serviceStarts (serve c wd st) ! j"
  proof cases
    case fresh
    have "serviceStarts (serve c wd st) ! c \<noteq> - 1"
      using c t by (auto simp: serve_simps [OF c(1)])
    moreover have "serviceStarts (serve c wd st) ! c \<le> currentTime st"
      using c b [of c] by (auto simp: serve_simps [OF c(1)])
    ultimately show ?thesis using fresh c(2) by (intro exI [of _ c]) simp
  next
    case busy
    have "serviceStarts (serve c wd st) ! j = serviceStarts st ! j"
      using busy(1,2) by (cases "j = c") (auto simp: serve_simps [OF c(1)])
    then show ?thesis using busy by (intro exI [of _ j]) simp
  qed
  then show ?thesis unfolding inv_busy_def sum len tm by blast
qed

lemma inv_last_serve:
  assumes "inv_len arr svc st" and "c < length arr" and "\<not> servedMask st ! c"
  shows "inv_last (serve c wd st)"
proof -
  have c: "c < length (remainingTimes st)" "c < length (servedMask st)"
    "c < length (serviceEnds st)"
    using assms by (simp_all add: inv_len_def)
  show ?thesis
    unfolding inv_last_def
  proof
    assume all: "list_all (\<lambda>b. b) (servedMask (serve c wd st))"
    have "c < length (servedMask (serve c wd st))" using c by (simp add: serve_simps [OF c(1)])
    then have "servedMask (serve c wd st) ! c" using all by (simp add: list_all_length)
    then have "remainingTimes st ! c = wd"
      using assms(3) by (simp add: serve_simps [OF c(1)] split: if_splits)
    then have "serviceEnds (serve c wd st) ! c = currentTime (serve c wd st)"
      using c by (simp add: serve_simps [OF c(1)])
    moreover have "c < length (serviceEnds (serve c wd st))"
      using c by (simp add: serve_simps [OF c(1)])
    ultimately show "servedMask (serve c wd st) = []
        \<or> (\<exists>i<length (serviceEnds (serve c wd st)).
              serviceEnds (serve c wd st) ! i = currentTime (serve c wd st))"
      by blast
  qed
qed

lemma inv1_serve:
  assumes "inv1 arr svc st" and "c < length arr" and "\<not> servedMask st ! c"
    and "0 < wd" and "wd \<le> remainingTimes st ! c"
  shows "inv1 arr svc (serve c wd st)"
proof -
  have i: "inv_len arr svc st" "inv_rem st" "inv_sum svc st" "inv_end st" "inv_time st"
    "inv_busy svc st"
    using assms(1) by (simp_all add: inv1_def)
  show ?thesis
    unfolding inv1_def
    using inv_len_serve [OF i(1) assms(2)] inv_rem_serve [OF i(1,2) assms(2-5)]
      inv_sum_serve [OF i(1,3) assms(2)] inv_end_serve [OF i(1,4) assms(2,3)]
      inv_time_serve [OF i(1,5) assms(2,4)] inv_busy_serve [OF i(1,5,6) assms(2)]
      inv_last_serve [OF i(1) assms(2,3)]
    by blast
qed

lemma inv1_jump:
  assumes "inv1 arr svc st" and "currentTime st \<le> a" and "\<not> list_all (\<lambda>b. b) (servedMask st)"
  shows "inv1 arr svc (st\<lparr>currentTime := a\<rparr>)"
proof -
  have "inv_time (st\<lparr>currentTime := a\<rparr>)"
    using assms(1,2) by (fastforce simp: inv1_def inv_time_def)
  moreover have "inv_busy svc (st\<lparr>currentTime := a\<rparr>)"
    using assms(1,2) by (fastforce simp: inv1_def inv_busy_def)
  ultimately show ?thesis
    using assms(1,3)
    by (simp add: inv1_def inv_len_def inv_rem_def inv_sum_def inv_end_def inv_last_def)
qed


subsection \<open>The single-server loop terminates\<close>

lemma timeToEvent_pos:
  assumes "0 < remainingTimes st ! c"
  shows "0 < timeToEvent arr prio up st c"
proof -
  define js where "js = filter (\<lambda>i. currentTime st < arr ! i \<and> prio ! i < prio ! c) [0..<length arr]"
  show ?thesis
  proof (cases "js \<noteq> [] \<and> up")
    case True
    then have "Min (set (map (\<lambda>i. arr ! i) js)) \<in> set (map (\<lambda>i. arr ! i) js)"
      by (intro Min_in) simp_all
    then obtain i where "i \<in> set js" "Min (set (map (\<lambda>i. arr ! i) js)) = arr ! i" by auto
    then have "currentTime st < Min (set (map (\<lambda>i. arr ! i) js))" by (simp add: js_def)
    then show ?thesis using True by (simp add: timeToEvent_def js_def [symmetric] Let_def)
  next
    case False
    then show ?thesis using assms by (auto simp: timeToEvent_def js_def [symmetric] Let_def)
  qed
qed

lemma remaining_nonneg:
  assumes "inv_rem st"
  shows "\<forall>i < length (remainingTimes st). 0 \<le> remainingTimes st ! i"
  using assms unfolding inv_rem_def by (metis less_le order_refl)

lemma mm1_step_progress:
  assumes "inv1 arr svc st" and "\<not> list_all (\<lambda>b. b) (servedMask st)"
  shows "\<exists>st'. mm1_step arr prio up st = Some st' \<and> inv1 arr svc st'
               \<and> measure1 arr st' < measure1 arr st"
proof -
  have len: "inv_len arr svc st" and rem: "inv_rem st" using assms(1) by (simp_all add: inv1_def)
  have lens: "length (remainingTimes st) = length arr" "length (servedMask st) = length arr"
    using len by (simp_all add: inv_len_def)
  have nn: "0 \<le> sum_list (remainingTimes st)"
    using remaining_nonneg [OF rem] by (rule sum_list_nonneg_int)
  show ?thesis
  proof (cases "waiting arr st = []")
    case True
    obtain j where j: "j < length arr" "\<not> servedMask st ! j"
      using assms(2) lens by (auto simp: list_all_length)
    then have "nextArr arr (servedMask st) \<noteq> None" by (auto simp: nextArr_None)
    then obtain a where a: "nextArr arr (servedMask st) = Some a" by blast
    obtain i where i: "i < length arr" "\<not> servedMask st ! i" "arr ! i = a"
      using nextArr_Some [OF a] by blast
    have late: "currentTime st < a"
      using True i waiting_iff [of i arr st] by auto
    have step: "mm1_step arr prio up st = Some (st\<lparr>currentTime := a\<rparr>)"
      using True a by (simp add: mm1_step_def)
    have "i \<in> set (waiting arr (st\<lparr>currentTime := a\<rparr>))"
      using i by (simp add: waiting_iff)
    then have "waiting arr (st\<lparr>currentTime := a\<rparr>) \<noteq> []" by auto
    then have "measure1 arr (st\<lparr>currentTime := a\<rparr>) < measure1 arr st"
      using True by (simp add: measure1_def)
    moreover have "inv1 arr svc (st\<lparr>currentTime := a\<rparr>)"
      using inv1_jump [OF assms(1) _ assms(2)] late by simp
    ultimately show ?thesis using step by blast
  next
    case False
    define c where "c = select_waiting prio up (waiting arr st)"
    define wd where "wd = min (remainingTimes st ! c) (timeToEvent arr prio up st c)"
    have "c \<in> set (waiting arr st)" unfolding c_def using False by (rule select_waiting_in)
    then have c: "c < length arr" "\<not> servedMask st ! c" by (simp_all add: waiting_iff)
    have pos: "0 < remainingTimes st ! c" using rem c lens by (simp add: inv_rem_def)
    have wd: "0 < wd" "wd \<le> remainingTimes st ! c"
      using pos timeToEvent_pos [OF pos, of arr prio up] by (simp_all add: wd_def)
    have step: "mm1_step arr prio up st = Some (serve c wd st)"
      using False by (simp add: mm1_step_def Let_def c_def wd_def)
    have "sum_list (remainingTimes (serve c wd st)) = sum_list (remainingTimes st) - wd"
      using c lens by (simp add: serve_simps sum_list_update_int)
    moreover have "wd \<le> sum_list (remainingTimes st)"
    proof -
      have "remainingTimes st ! c \<le> sum_list (remainingTimes st)"
        using remaining_nonneg [OF rem] c(1) lens(1)
        by (metis member_le_sum_list nth_mem in_set_conv_nth)
      then show ?thesis using wd(2) by simp
    qed
    ultimately have "2 * nat (sum_list (remainingTimes (serve c wd st))) + 1
        < 2 * nat (sum_list (remainingTimes st))"
      using wd(1) by linarith
    then have "measure1 arr (serve c wd st) < measure1 arr st"
      unfolding measure1_def using False by (simp split: if_splits) linarith+
    moreover have "inv1 arr svc (serve c wd st)"
      by (rule inv1_serve [OF assms(1) c wd])
    ultimately show ?thesis using step by blast
  qed
qed

lemma mm1_loop_total:
  assumes "inv1 arr svc st"
  shows "\<exists>st'. mm1_loop arr prio up st = Some st' \<and> inv1 arr svc st'
               \<and> list_all (\<lambda>b. b) (servedMask st')"
  using assms
proof (induction "measure1 arr st" arbitrary: st rule: less_induct)
  case less
  show ?case
  proof (cases "list_all (\<lambda>b. b) (servedMask st)")
    case True
    then show ?thesis using less.prems by (subst mm1_loop.simps) simp
  next
    case False
    obtain st' where st': "mm1_step arr prio up st = Some st'" "inv1 arr svc st'"
      "measure1 arr st' < measure1 arr st"
      using mm1_step_progress [OF less.prems False] by blast
    have "mm1_loop arr prio up st = mm1_loop arr prio up st'"
      using False st'(1) by (subst mm1_loop.simps) simp
    then show ?thesis using less.hyps [OF st'(3) st'(2)] by simp
  qed
qed

lemma inv1_init:
  assumes "sim_input arr svc prio"
  shows "inv1 arr svc (mm1_init arr svc)"
proof -
  have "inv_rem (mm1_init arr svc)"
    using assms by (auto simp: inv_rem_def mm1_init_def Let_def sim_input_def list_all_length)
  moreover have "inv_len arr svc (mm1_init arr svc)"
    using assms by (simp add: inv_len_def mm1_init_def Let_def sim_input_def)
  moreover have "inv_last (mm1_init arr svc)"
    by (cases arr) (simp_all add: inv_last_def mm1_init_def Let_def)
  ultimately show ?thesis
    by (simp add: inv1_def inv_sum_def inv_end_def inv_time_def inv_busy_def mm1_init_def Let_def)
qed


subsection \<open>Steps 2 and 3 of the multi-server loop keep the invariant\<close>

lemma install_simps:
  "currentTime (install k c st) = currentTime st"
  "remainingTimes (install k c st) = remainingTimes st"
  "servedMask (install k c st) = servedMask st"
  "chunks (install k c st) = chunks st"
  "serviceEnd (install k c st) = serviceEnd st"
  "serverOccupancy (install k c st) = (serverOccupancy st)[k := Some c]"
  "lastChunkStart (install k c st) = (lastChunkStart st)[c := currentTime st]"
  "length (serviceStart (install k c st)) = length (serviceStart st)"
  "length (serverAssigned (install k c st)) = length (serverAssigned st)"
  by (simp_all add: install_def)

lemma on_server_nth: "on_server st i \<longleftrightarrow> (\<exists>s < length (serverOccupancy st). serverOccupancy st ! s = Some i)"
  by (auto simp: on_server_def in_set_conv_nth)

lemma on_server_install:
  assumes "k < length (serverOccupancy st)"
  shows "on_server (install k c st) i \<longleftrightarrow>
         i = c \<or> (\<exists>s < length (serverOccupancy st). s \<noteq> k \<and> serverOccupancy st ! s = Some i)"
  using assms by (auto simp: on_server_nth install_simps nth_list_update)

lemma inv2_len_install:
  "inv2_len arr svc servers st \<Longrightarrow> inv2_len arr svc servers (install k c st)"
  by (simp add: inv2_len_def install_simps)

lemma inv_rem_install: "inv_rem st \<Longrightarrow> inv_rem (install k c st)"
  by (simp add: inv_rem_def install_simps)

lemma inv2_end_install: "inv2_end st \<Longrightarrow> inv2_end (install k c st)"
  by (simp add: inv2_end_def install_simps)

lemma inv2_occ_install:
  assumes "inv2_occ st" and "c < length (remainingTimes st)" and "\<not> servedMask st ! c"
    and "length (lastChunkStart st) = length (remainingTimes st)"
  shows "inv2_occ (install k c st)"
  unfolding inv2_occ_def install_simps
proof (intro allI impI)
  fix s c'
  assume s: "s < length ((serverOccupancy st)[k := Some c])"
    and o: "(serverOccupancy st)[k := Some c] ! s = Some c'"
  show "c' < length (remainingTimes st) \<and> \<not> servedMask st ! c'
        \<and> (lastChunkStart st)[c := currentTime st] ! c' \<le> currentTime st"
  proof (cases "c' = c")
    case True
    then show ?thesis using assms(2,3,4) by simp
  next
    case False
    then have "s \<noteq> k" using o s by auto
    then have "serverOccupancy st ! s = Some c'" using o by simp
    then show ?thesis using assms(1) s False by (auto simp: inv2_occ_def)
  qed
qed

lemma inv2_dist_install:
  assumes "inv2_dist st" and "\<not> on_server st c"
  shows "inv2_dist (install k c st)"
  unfolding inv2_dist_def install_simps
proof (intro allI impI)
  fix s1 s2 c'
  assume s: "s1 < length ((serverOccupancy st)[k := Some c])"
    "s2 < length ((serverOccupancy st)[k := Some c])"
    and o: "(serverOccupancy st)[k := Some c] ! s1 = Some c'
            \<and> (serverOccupancy st)[k := Some c] ! s2 = Some c'"
  have no: "serverOccupancy st ! s \<noteq> Some c" if "s < length (serverOccupancy st)" for s
    using assms(2) that by (auto simp: on_server_nth)
  show "s1 = s2"
  proof (cases "s1 = k \<or> s2 = k")
    case True
    then show ?thesis using o s no [of s1] no [of s2] by (auto simp: nth_list_update split: if_splits)
  next
    case False
    then show ?thesis using o s assms(1) by (auto simp: inv2_dist_def)
  qed
qed


lemma inv2_sum_assign:
  assumes "inv2_sum svc st" and "k < length (serverOccupancy st)"
    and "serverOccupancy st ! k = None" and "\<not> on_server st c"
    and "c < length (lastChunkStart st)"
  shows "inv2_sum svc (install k c st)"
  unfolding inv2_sum_def
proof (intro allI impI)
  fix i assume i: "i < length svc"
  have "(\<exists>s < length (serverOccupancy st). s \<noteq> k \<and> serverOccupancy st ! s = Some i)
        \<longleftrightarrow> on_server st i"
    unfolding on_server_nth using assms(3) by (metis option.simps(3))
  then have on: "on_server (install k c st) i \<longleftrightarrow> i = c \<or> on_server st i"
    using on_server_install [OF assms(2), of c i] by simp
  have old: "chunk_sum (customer_label i) (chunks st)
        + (if on_server st i then currentTime st - lastChunkStart st ! i else 0)
        = svc ! i - remainingTimes st ! i"
    using assms(1) i by (simp add: inv2_sum_def)
  show "chunk_sum (customer_label i) (chunks (install k c st))
        + (if on_server (install k c st) i
           then currentTime (install k c st) - lastChunkStart (install k c st) ! i else 0)
        = svc ! i - remainingTimes (install k c st) ! i"
  proof (cases "i = c")
    case True
    then show ?thesis using old assms(4,5) by (simp add: on install_simps)
  next
    case False
    then show ?thesis using old by (auto simp: on install_simps)
  qed
qed

text \<open>The state of step 3 after the chunk of the displaced customer is closed.\<close>

lemma inv2_sum_preempt:
  assumes "inv2_sum svc st" and "inv2_occ st" and "inv2_dist st"
    and "k < length (serverOccupancy st)" and "serverOccupancy st ! k = Some cc"
    and "\<not> on_server st c" and "c < length (lastChunkStart st)"
    and st1: "st1 = (if 0 < currentTime st - lastChunkStart st ! cc
                     then st\<lparr>chunks := chunks st @
                              [\<lparr>ch_label = customer_label cc,
                                ch_start = lastChunkStart st ! cc,
                                ch_end = currentTime st,
                                ch_server = Some (server_label k)\<rparr>]\<rparr>
                     else st)"
  shows "inv2_sum svc (install k c st1)"
  unfolding inv2_sum_def
proof (intro allI impI)
  fix i assume i: "i < length svc"
  have same: "serverOccupancy st1 = serverOccupancy st" "currentTime st1 = currentTime st"
    "lastChunkStart st1 = lastChunkStart st" "remainingTimes st1 = remainingTimes st"
    by (simp_all add: st1)
  have le: "lastChunkStart st ! cc \<le> currentTime st"
    using assms(2,4,5) by (auto simp: inv2_occ_def)
  have cs: "chunk_sum (customer_label j) (chunks st1)
            = chunk_sum (customer_label j) (chunks st)
              + (if j = cc then currentTime st - lastChunkStart st ! cc else 0)" for j
    using le by (auto simp: st1)
  have oncurr: "on_server st cc" using assms(4,5) by (auto simp: on_server_nth)
  then have neq: "c \<noteq> cc" using assms(6) by auto
  have only: "s = k" if "s < length (serverOccupancy st)" "serverOccupancy st ! s = Some cc" for s
    using assms(3,4,5) that by (auto simp: inv2_dist_def)
  have on: "on_server (install k c st1) j \<longleftrightarrow> j = c \<or> (on_server st j \<and> j \<noteq> cc)" for j
  proof -
    have "(\<exists>s < length (serverOccupancy st). s \<noteq> k \<and> serverOccupancy st ! s = Some j)
          \<longleftrightarrow> on_server st j \<and> j \<noteq> cc"
      using only assms(5) by (auto simp: on_server_nth)
    then show ?thesis using on_server_install [of k st1 c j] assms(4) by (simp add: same)
  qed
  have old: "chunk_sum (customer_label i) (chunks st)
        + (if on_server st i then currentTime st - lastChunkStart st ! i else 0)
        = svc ! i - remainingTimes st ! i"
    using assms(1) i by (simp add: inv2_sum_def)
  show "chunk_sum (customer_label i) (chunks (install k c st1))
        + (if on_server (install k c st1) i
           then currentTime (install k c st1) - lastChunkStart (install k c st1) ! i else 0)
        = svc ! i - remainingTimes (install k c st1) ! i"
  proof (cases "i = c")
    case True
    then show ?thesis using old assms(6,7) neq by (simp add: on cs install_simps same)
  next
    case False
    then show ?thesis using old oncurr by (cases "i = cc") (auto simp: on cs install_simps same)
  qed
qed

lemma pool_member:
  assumes "pool_ok pool st" and "c \<in> set pool"
  shows "c < length (remainingTimes st)" "\<not> servedMask st ! c" "\<not> on_server st c"
  using assms by (auto simp: pool_ok_def)

lemma assign_idle_mid:
  assumes "mid_inv arr svc servers st0 ps" and "k < servers"
  shows "mid_inv arr svc servers st0 (assign_idle prio up k ps)"
proof (cases "serverOccupancy (snd ps) ! k = None \<and> fst ps \<noteq> []")
  case False
  then have "assign_idle prio up k ps = ps" by (auto simp: assign_idle_def Let_def)
  then show ?thesis using assms(1) by simp
next
  case True
  define pool where "pool = fst ps"
  define st where "st = snd ps"
  define c where "c = select_waiting prio up pool"
  have res: "assign_idle prio up k ps = (remove1 c pool, install k c st)"
    using True by (simp add: assign_idle_def Let_def pool_def st_def c_def)
  have inv: "inv2 arr svc servers st" and pk: "pool_ok pool st"
    and keep: "currentTime st = currentTime st0" "remainingTimes st = remainingTimes st0"
      "servedMask st = servedMask st0"
    and mono: "\<forall>s < servers. serverOccupancy st0 ! s \<noteq> None \<longrightarrow> serverOccupancy st ! s \<noteq> None"
    using assms(1) by (simp_all add: mid_inv_def pool_def st_def)
  have parts: "inv2_len arr svc servers st" "inv_rem st" "inv2_occ st" "inv2_dist st"
    "inv2_sum svc st" "inv2_end st"
    using inv by (simp_all add: inv2_def)
  have lens: "length (serverOccupancy st) = servers"
    "length (lastChunkStart st) = length (remainingTimes st)"
    using parts(1) by (simp_all add: inv2_len_def)
  have cin: "c \<in> set pool" unfolding c_def using True by (intro select_waiting_in) (simp add: pool_def)
  note cm = pool_member [OF pk cin]
  have k: "k < length (serverOccupancy st)" using assms(2) lens by simp
  have idle: "serverOccupancy st ! k = None" using True by (simp add: st_def)
  have "inv2 arr svc servers (install k c st)"
    unfolding inv2_def
    using inv2_len_install [OF parts(1)] inv_rem_install [OF parts(2)]
      inv2_occ_install [OF parts(3) cm(1,2) lens(2)] inv2_dist_install [OF parts(4) cm(3)]
      inv2_sum_assign [OF parts(5) k idle cm(3)] cm(1) lens(2) inv2_end_install [OF parts(6)]
    by simp
  moreover have "pool_ok (remove1 c pool) (install k c st)"
  proof -
    have d: "distinct pool" using pk by (simp add: pool_ok_def)
    have "\<not> on_server (install k c st) c'" if "c' \<in> set (remove1 c pool)" for c'
    proof -
      have "c' \<noteq> c" "c' \<in> set pool" using that d by auto
      then show ?thesis
        using pool_member(3) [OF pk, of c'] on_server_install [OF k, of c c']
        by (auto simp: on_server_nth)
    qed
    then show ?thesis
      using pk d by (auto simp: pool_ok_def install_simps dest: notin_set_remove1)
  qed
  moreover have "\<forall>s < servers. serverOccupancy st0 ! s \<noteq> None
      \<longrightarrow> serverOccupancy (install k c st) ! s \<noteq> None"
  proof (intro allI impI)
    fix s assume "s < servers" "serverOccupancy st0 ! s \<noteq> None"
    then have "serverOccupancy st ! s \<noteq> None" using mono by simp
    then show "serverOccupancy (install k c st) ! s \<noteq> None"
      using k by (cases "s = k") (simp_all add: install_simps)
  qed
  ultimately show ?thesis
    using keep by (simp add: mid_inv_def res install_simps)
qed


lemma preempt_mid:
  assumes "mid_inv arr svc servers st0 ps" and "k < servers"
  shows "mid_inv arr svc servers st0 (preempt prio k ps)"
proof -
  define pool where "pool = fst ps"
  define st where "st = snd ps"
  define best where "best = pick_priority prio (hd pool) pool"
  show ?thesis
  proof (cases "\<exists>cc. serverOccupancy st ! k = Some cc \<and> pool \<noteq> [] \<and> prio ! best < prio ! cc")
    case False
    then have "preempt prio k ps = ps"
      by (auto simp: preempt_def Let_def pool_def st_def best_def split: option.splits)
    then show ?thesis using assms(1) by simp
  next
    case True
    then obtain cc where cc: "serverOccupancy st ! k = Some cc" and ne: "pool \<noteq> []"
      and better: "prio ! best < prio ! cc"
      by blast
    define st1 where "st1 = (if 0 < currentTime st - lastChunkStart st ! cc
                     then st\<lparr>chunks := chunks st @
                              [\<lparr>ch_label = customer_label cc,
                                ch_start = lastChunkStart st ! cc,
                                ch_end = currentTime st,
                                ch_server = Some (server_label k)\<rparr>]\<rparr>
                     else st)"
    have res: "preempt prio k ps = (remove1 best (pool @ [cc]), install k best st1)"
      using cc ne better
      by (simp add: preempt_def Let_def pool_def [symmetric] st_def [symmetric]
          best_def [symmetric] st1_def)
    have inv: "inv2 arr svc servers st" and pk: "pool_ok pool st"
      and keep: "currentTime st = currentTime st0" "remainingTimes st = remainingTimes st0"
        "servedMask st = servedMask st0"
      and mono: "\<forall>s < servers. serverOccupancy st0 ! s \<noteq> None \<longrightarrow> serverOccupancy st ! s \<noteq> None"
      using assms(1) by (simp_all add: mid_inv_def pool_def st_def)
    have parts: "inv2_len arr svc servers st" "inv_rem st" "inv2_occ st" "inv2_dist st"
      "inv2_sum svc st" "inv2_end st"
      using inv by (simp_all add: inv2_def)
    have lens: "length (serverOccupancy st) = servers"
      "length (lastChunkStart st) = length (remainingTimes st)"
      using parts(1) by (simp_all add: inv2_len_def)
    have k: "k < length (serverOccupancy st)" using assms(2) lens by simp
    have "hd pool \<in> set pool" using ne by simp
    then have bin: "best \<in> set pool"
      using pick_priority_in [of prio "hd pool" pool] by (auto simp: best_def)
    note bm = pool_member [OF pk bin]
    have ccm: "cc < length (remainingTimes st)" "\<not> servedMask st ! cc" "on_server st cc"
      using parts(3) k cc by (auto simp: inv2_occ_def on_server_nth)
    have same: "serverOccupancy st1 = serverOccupancy st" "currentTime st1 = currentTime st"
      "lastChunkStart st1 = lastChunkStart st" "remainingTimes st1 = remainingTimes st"
      "servedMask st1 = servedMask st"
      by (simp_all add: st1_def)
    have on1: "on_server st1 i = on_server st i" for i by (simp add: on_server_def same)
    have parts1: "inv2_len arr svc servers st1" "inv_rem st1" "inv2_occ st1" "inv2_dist st1"
      "inv2_end st1"
      using parts
      by (auto simp: st1_def inv2_len_def inv_rem_def inv2_occ_def inv2_dist_def inv2_end_def)
    have "inv2 arr svc servers (install k best st1)"
      unfolding inv2_def
      using inv2_len_install [OF parts1(1)] inv_rem_install [OF parts1(2)]
        inv2_occ_install [OF parts1(3), of best k] inv2_dist_install [OF parts1(4), of best k]
        inv2_sum_preempt [OF parts(5,3,4) k cc bm(3) _ st1_def] inv2_end_install [OF parts1(5)]
        bm lens(2)
      by (simp add: same on1)
    moreover have "pool_ok (remove1 best (pool @ [cc])) (install k best st1)"
    proof -
      have "cc \<notin> set pool" using pool_member(3) [OF pk] ccm(3) by blast
      then have d: "distinct (pool @ [cc])" using pk by (simp add: pool_ok_def)
      have only: "s = k" if "s < length (serverOccupancy st)" "serverOccupancy st ! s = Some cc" for s
        using parts(4) k cc that by (auto simp: inv2_dist_def)
      have "\<not> on_server (install k best st1) c'" if "c' \<in> set (remove1 best (pool @ [cc]))" for c'
      proof -
        have c': "c' \<noteq> best" "c' \<in> set pool \<or> c' = cc" using that d by auto
        have "\<not> (\<exists>s < length (serverOccupancy st). s \<noteq> k \<and> serverOccupancy st ! s = Some c')"
          using c'(2) only pool_member(3) [OF pk, of c'] by (auto simp: on_server_nth)
        then show ?thesis using on_server_install [of k st1 best c'] k c'(1) by (simp add: same)
      qed
      moreover have "c' < length (remainingTimes st) \<and> \<not> servedMask st ! c'"
        if "c' \<in> set (remove1 best (pool @ [cc]))" for c'
      proof -
        have "c' \<in> set (pool @ [cc])" using that by (metis notin_set_remove1)
        then have "c' \<in> set pool \<or> c' = cc" by auto
        then show ?thesis using ccm(1,2) pool_member(1,2) [OF pk, of c'] by auto
      qed
      ultimately show ?thesis
        using d by (simp add: pool_ok_def install_simps same)
    qed
    moreover have "\<forall>s < servers. serverOccupancy st0 ! s \<noteq> None
        \<longrightarrow> serverOccupancy (install k best st1) ! s \<noteq> None"
    proof (intro allI impI)
      fix s assume "s < servers" "serverOccupancy st0 ! s \<noteq> None"
      then have "serverOccupancy st ! s \<noteq> None" using mono by simp
      then show "serverOccupancy (install k best st1) ! s \<noteq> None"
        using k by (cases "s = k") (simp_all add: install_simps same)
    qed
    ultimately show ?thesis
      using keep by (simp add: mid_inv_def res install_simps same)
  qed
qed

lemma fold_mid:
  assumes "\<And>k ps. k < servers \<Longrightarrow> mid_inv arr svc servers st0 ps
                   \<Longrightarrow> mid_inv arr svc servers st0 (f k ps)"
    and "mid_inv arr svc servers st0 ps" and "\<forall>k \<in> set ks. k < servers"
  shows "mid_inv arr svc servers st0 (fold f ks ps)"
  using assms(2,3)
proof (induction ks arbitrary: ps)
  case Nil
  then show ?case by simp
next
  case (Cons k ks)
  then show ?case using assms(1) by simp
qed


subsection \<open>Step 5 of the multi-server loop\<close>

lemma execute_work_idle:
  assumes "serverOccupancy st ! k = None"
  shows "execute_work nxt k st = st"
  using assms by (simp add: execute_work_def)

lemma execute_work_going:
  assumes "serverOccupancy st ! k = Some c" and "c < length (remainingTimes st)"
    and "nxt - currentTime st < remainingTimes st ! c"
  shows "execute_work nxt k st
         = st\<lparr>remainingTimes := (remainingTimes st)[c := remainingTimes st ! c - (nxt - currentTime st)]\<rparr>"
proof -
  have "\<not> (remainingTimes st)[c := remainingTimes st ! c - (nxt - currentTime st)] ! c \<le> 0"
    using assms(2,3) by (simp only: nth_list_update_eq)
  then show ?thesis
    unfolding execute_work_def Let_def assms(1) option.case by (simp only: if_False)
qed

lemma execute_work_done:
  assumes "serverOccupancy st ! k = Some c" and "c < length (remainingTimes st)"
    and "remainingTimes st ! c \<le> nxt - currentTime st"
  shows "execute_work nxt k st
         = st\<lparr>remainingTimes := (remainingTimes st)[c := remainingTimes st ! c - (nxt - currentTime st)],
               chunks := chunks st @
                 [\<lparr>ch_label = customer_label c, ch_start = lastChunkStart st ! c,
                   ch_end = nxt, ch_server = Some (server_label k)\<rparr>],
               serviceEnd := (serviceEnd st)[c := nxt],
               servedMask := (servedMask st)[c := True],
               serverOccupancy := (serverOccupancy st)[k := None]\<rparr>"
proof -
  have "(remainingTimes st)[c := remainingTimes st ! c - (nxt - currentTime st)] ! c \<le> 0"
    using assms(2,3) by (simp only: nth_list_update_eq)
  then show ?thesis
    unfolding execute_work_def Let_def assms(1) option.case by (simp only: if_True)
qed

lemma work_inv_parts:
  assumes "work_inv arr svc servers st0 nxt k st"
  shows "inv2_len arr svc servers st" "inv_rem st" "inv2_occ st" "inv2_dist st" "inv2_end st"
    "work_frame servers st0 k st" "work_min servers (nxt - currentTime st0) k st"
    "work_sum svc nxt k st" "work_less st0 k st"
  using assms by (simp_all add: work_inv_def)

lemma work_frame_Suc: "work_frame servers st0 k st \<Longrightarrow> work_frame servers st0 (Suc k) st"
  unfolding work_frame_def by (blast dest: Suc_leD)

lemma work_min_Suc: "work_min servers j k st \<Longrightarrow> work_min servers j (Suc k) st"
  unfolding work_min_def by (blast dest: Suc_leD)

lemma work_inv_idle:
  assumes "work_inv arr svc servers st0 nxt k st" and "k < servers"
    and "serverOccupancy st ! k = None"
  shows "work_inv arr svc servers st0 nxt (Suc k) st"
proof -
  note p = work_inv_parts [OF assms(1)]
  have "serverOccupancy st ! k = serverOccupancy st0 ! k"
    using p(6) assms(2) unfolding work_frame_def by blast
  then have k0: "serverOccupancy st0 ! k = None" using assms(3) by simp
  have ex: "(\<exists>s < Suc k. serverOccupancy st ! s = Some i) \<longleftrightarrow> (\<exists>s < k. serverOccupancy st ! s = Some i)" for i
    using assms(3) by (auto simp: less_Suc_eq)
  have ex0: "(\<exists>s < Suc k. serverOccupancy st0 ! s \<noteq> None) \<longleftrightarrow> (\<exists>s < k. serverOccupancy st0 ! s \<noteq> None)"
    using k0 by (auto simp: less_Suc_eq)
  have "work_sum svc nxt (Suc k) st"
    using p(8) unfolding work_sum_def ex .
  moreover have "work_less st0 (Suc k) st"
    using p(9) unfolding work_less_def ex0 .
  ultimately show ?thesis
    unfolding work_inv_def using p(1-5) work_frame_Suc [OF p(6)] work_min_Suc [OF p(7)] by blast
qed

lemma work_inv_going:
  assumes "work_inv arr svc servers st0 nxt k st" and "k < servers"
    and occ: "serverOccupancy st ! k = Some c"
    and jump: "0 < nxt - currentTime st" "nxt - currentTime st < remainingTimes st ! c"
  shows "work_inv arr svc servers st0 nxt (Suc k) (execute_work nxt k st)"
proof -
  note p = work_inv_parts [OF assms(1)]
  define j where "j = nxt - currentTime st"
  define st' where "st' = st\<lparr>remainingTimes := (remainingTimes st)[c := remainingTimes st ! c - j]\<rparr>"
  have lens: "length (serverOccupancy st) = servers" "length (servedMask st) = length (remainingTimes st)"
    "length svc = length (remainingTimes st)"
    using p(1) by (simp_all add: inv2_len_def)
  have k: "k < length (serverOccupancy st)" using assms(2) lens by simp
  have c: "c < length (remainingTimes st)" "\<not> servedMask st ! c"
    using p(3) k occ unfolding inv2_occ_def by blast+
  have only: "s = k" if "s < servers" "serverOccupancy st ! s = Some c" for s
    using p(4) k occ that lens(1) unfolding inv2_dist_def by blast
  have res: "execute_work nxt k st = st'"
    unfolding st'_def j_def by (rule execute_work_going [OF occ c(1) jump(2)])
  have f: "currentTime st' = currentTime st" "servedMask st' = servedMask st"
    "chunks st' = chunks st" "serviceStart st' = serviceStart st" "serviceEnd st' = serviceEnd st"
    "serverAssigned st' = serverAssigned st" "serverOccupancy st' = serverOccupancy st"
    "lastChunkStart st' = lastChunkStart st"
    "remainingTimes st' = (remainingTimes st)[c := remainingTimes st ! c - j]"
    by (simp_all add: st'_def)
  have on: "on_server st' i = on_server st i" for i by (simp add: on_server_def f)
  have t0: "currentTime st = currentTime st0" using p(6) by (simp add: work_frame_def)
  have i1: "inv2_len arr svc servers st'" using p(1) by (simp add: inv2_len_def f)
  have i2: "inv_rem st'"
    unfolding inv_rem_def f
  proof (intro allI impI)
    fix i assume "i < length ((remainingTimes st)[c := remainingTimes st ! c - j])"
    then have i: "i < length (remainingTimes st)" by simp
    have old: "(servedMask st ! i \<longrightarrow> remainingTimes st ! i = 0)
               \<and> (\<not> servedMask st ! i \<longrightarrow> 0 < remainingTimes st ! i)"
      using p(2) i unfolding inv_rem_def by blast
    show "(servedMask st ! i \<longrightarrow> (remainingTimes st)[c := remainingTimes st ! c - j] ! i = 0)
          \<and> (\<not> servedMask st ! i \<longrightarrow> 0 < (remainingTimes st)[c := remainingTimes st ! c - j] ! i)"
    proof (cases "i = c")
      case True
      then show ?thesis using c jump(2) by (simp add: j_def)
    next
      case False
      then show ?thesis using old by simp
    qed
  qed
  have i3: "inv2_occ st'" using p(3) unfolding inv2_occ_def f by simp
  have i4: "inv2_dist st'" using p(4) unfolding inv2_dist_def f .
  have i5: "inv2_end st'" using p(5) unfolding inv2_end_def f .
  have w1: "work_frame servers st0 (Suc k) st'"
    using work_frame_Suc [OF p(6)] unfolding work_frame_def f .
  have w2: "work_min servers (nxt - currentTime st0) (Suc k) st'"
    unfolding work_min_def f
  proof (intro allI impI)
    fix s c' assume s: "Suc k \<le> s \<and> s < servers" and o: "serverOccupancy st ! s = Some c'"
    have "c' \<noteq> c" using only [of s] s o by auto
    moreover have "nxt - currentTime st0 \<le> remainingTimes st ! c'"
      using p(7) s o unfolding work_min_def by (meson Suc_leD)
    ultimately show "nxt - currentTime st0 \<le> (remainingTimes st)[c := remainingTimes st ! c - j] ! c'"
      by simp
  qed
  have w3: "work_sum svc nxt (Suc k) st'"
    unfolding work_sum_def f on
  proof (intro allI impI)
    fix i assume i: "i < length svc"
    have old: "chunk_sum (customer_label i) (chunks st)
        + (if on_server st i
           then (if \<exists>s < k. serverOccupancy st ! s = Some i then nxt else currentTime st)
                - lastChunkStart st ! i
           else 0)
        = svc ! i - remainingTimes st ! i"
      using p(8) i unfolding work_sum_def by blast
    show "chunk_sum (customer_label i) (chunks st)
        + (if on_server st i
           then (if \<exists>s < Suc k. serverOccupancy st ! s = Some i then nxt else currentTime st)
                - lastChunkStart st ! i
           else 0)
        = svc ! i - (remainingTimes st)[c := remainingTimes st ! c - j] ! i"
    proof (cases "i = c")
      case True
      have a: "on_server st c" using k occ by (auto simp: on_server_nth)
      have b: "\<not> (\<exists>s < k. serverOccupancy st ! s = Some c)"
        using only assms(2) by (metis less_trans nat_neq_iff)
      have d: "\<exists>s < Suc k. serverOccupancy st ! s = Some c" using occ by blast
      show ?thesis using old c(1) unfolding True by (simp add: a b d j_def)
    next
      case False
      have e: "(\<exists>s < Suc k. serverOccupancy st ! s = Some i) \<longleftrightarrow> (\<exists>s < k. serverOccupancy st ! s = Some i)"
        using occ False by (auto simp: less_Suc_eq)
      have r: "(remainingTimes st)[c := remainingTimes st ! c - j] ! i = remainingTimes st ! i"
        using False by simp
      show ?thesis unfolding e r by (rule old)
    qed
  qed
  have w4: "work_less st0 (Suc k) st'"
  proof -
    have "sum_list (remainingTimes st') = sum_list (remainingTimes st) - j"
      using c(1) by (simp add: f sum_list_update_int)
    moreover have "sum_list (remainingTimes st) \<le> sum_list (remainingTimes st0)"
      using p(9) by (simp add: work_less_def)
    ultimately show ?thesis using jump(1) by (simp add: work_less_def j_def)
  qed
  show ?thesis unfolding res work_inv_def using i1 i2 i3 i4 i5 w1 w2 w3 w4 by blast
qed


lemma work_inv_done:
  assumes "work_inv arr svc servers st0 nxt k st" and "k < servers"
    and occ: "serverOccupancy st ! k = Some c"
    and jump: "0 < nxt - currentTime st" "remainingTimes st ! c \<le> nxt - currentTime st"
  shows "work_inv arr svc servers st0 nxt (Suc k) (execute_work nxt k st)"
proof -
  note p = work_inv_parts [OF assms(1)]
  define j where "j = nxt - currentTime st"
  define ch where "ch = \<lparr>ch_label = customer_label c, ch_start = lastChunkStart st ! c,
                         ch_end = nxt, ch_server = Some (server_label k)\<rparr>"
  define st' where "st' = st\<lparr>remainingTimes := (remainingTimes st)[c := remainingTimes st ! c - j],
               chunks := chunks st @ [ch],
               serviceEnd := (serviceEnd st)[c := nxt],
               servedMask := (servedMask st)[c := True],
               serverOccupancy := (serverOccupancy st)[k := None]\<rparr>"
  have lens: "length (serverOccupancy st) = servers" "length (servedMask st) = length (remainingTimes st)"
    "length svc = length (remainingTimes st)" "length (serviceEnd st) = length (remainingTimes st)"
    using p(1) by (simp_all add: inv2_len_def)
  have k: "k < length (serverOccupancy st)" using assms(2) lens by simp
  have c: "c < length (remainingTimes st)" "\<not> servedMask st ! c"
    using p(3) k occ unfolding inv2_occ_def by blast+
  have only: "s = k" if "s < servers" "serverOccupancy st ! s = Some c" for s
    using p(4) k occ that lens(1) unfolding inv2_dist_def by blast
  have t0: "currentTime st = currentTime st0" using p(6) by (simp add: work_frame_def)
  have "j \<le> remainingTimes st ! c"
    using p(7) assms(2) occ unfolding work_min_def j_def t0 by blast
  then have exact: "remainingTimes st ! c = j" using jump(2) by (simp add: j_def)
  have res: "execute_work nxt k st = st'"
    unfolding st'_def j_def ch_def by (rule execute_work_done [OF occ c(1) jump(2)])
  have f: "currentTime st' = currentTime st"
    "servedMask st' = (servedMask st)[c := True]"
    "chunks st' = chunks st @ [ch]" "serviceStart st' = serviceStart st"
    "serviceEnd st' = (serviceEnd st)[c := nxt]"
    "serverAssigned st' = serverAssigned st"
    "serverOccupancy st' = (serverOccupancy st)[k := None]"
    "lastChunkStart st' = lastChunkStart st"
    "remainingTimes st' = (remainingTimes st)[c := 0]"
    by (simp_all add: st'_def exact)
  have occ': "serverOccupancy st' ! s = (if s = k then None else serverOccupancy st ! s)"
    if "s < servers" for s
    using that lens(1) by (simp add: f nth_list_update)
  have on: "on_server st' i \<longleftrightarrow> on_server st i \<and> i \<noteq> c" for i
  proof -
    have "on_server st' i \<longleftrightarrow> (\<exists>s < servers. serverOccupancy st' ! s = Some i)"
      unfolding on_server_nth f(7) using lens(1) by simp
    also have "\<dots> \<longleftrightarrow> (\<exists>s < servers. s \<noteq> k \<and> serverOccupancy st ! s = Some i)"
    proof
      assume "\<exists>s < servers. serverOccupancy st' ! s = Some i"
      then obtain s where s: "s < servers" "serverOccupancy st' ! s = Some i" by blast
      then have "s \<noteq> k \<and> serverOccupancy st ! s = Some i"
        using occ' [of s] by (auto split: if_splits)
      then show "\<exists>s < servers. s \<noteq> k \<and> serverOccupancy st ! s = Some i" using s(1) by blast
    next
      assume "\<exists>s < servers. s \<noteq> k \<and> serverOccupancy st ! s = Some i"
      then obtain s where s: "s < servers" "s \<noteq> k" "serverOccupancy st ! s = Some i" by blast
      then have "serverOccupancy st' ! s = Some i" using occ' [of s] by simp
      then show "\<exists>s < servers. serverOccupancy st' ! s = Some i" using s(1) by blast
    qed
    also have "\<dots> \<longleftrightarrow> on_server st i \<and> i \<noteq> c"
    proof
      assume "\<exists>s < servers. s \<noteq> k \<and> serverOccupancy st ! s = Some i"
      then obtain s where s: "s < servers" "s \<noteq> k" "serverOccupancy st ! s = Some i" by blast
      have "i \<noteq> c" using only [of s] s by auto
      moreover have "on_server st i" unfolding on_server_nth lens(1) using s by blast
      ultimately show "on_server st i \<and> i \<noteq> c" by simp
    next
      assume a: "on_server st i \<and> i \<noteq> c"
      then obtain s where s: "s < servers" "serverOccupancy st ! s = Some i"
        unfolding on_server_nth lens(1) by blast
      have "s \<noteq> k" using s(2) occ a by auto
      then show "\<exists>s < servers. s \<noteq> k \<and> serverOccupancy st ! s = Some i" using s by blast
    qed
    finally show ?thesis .
  qed
  have i1: "inv2_len arr svc servers st'" using p(1) by (simp add: inv2_len_def f)
  have i2: "inv_rem st'"
    unfolding inv_rem_def f
  proof (intro allI impI)
    fix i assume "i < length ((remainingTimes st)[c := 0])"
    then have i: "i < length (remainingTimes st)" by simp
    have old: "(servedMask st ! i \<longrightarrow> remainingTimes st ! i = 0)
               \<and> (\<not> servedMask st ! i \<longrightarrow> 0 < remainingTimes st ! i)"
      using p(2) i unfolding inv_rem_def by blast
    show "((servedMask st)[c := True] ! i \<longrightarrow> (remainingTimes st)[c := 0] ! i = 0)
          \<and> (\<not> (servedMask st)[c := True] ! i \<longrightarrow> 0 < (remainingTimes st)[c := 0] ! i)"
    proof (cases "i = c")
      case True
      then show ?thesis using c lens(2) by simp
    next
      case False
      then show ?thesis using old by simp
    qed
  qed
  have i3: "inv2_occ st'"
    unfolding inv2_occ_def
  proof (intro allI impI)
    fix s c' assume s: "s < length (serverOccupancy st')" and o: "serverOccupancy st' ! s = Some c'"
    have s': "s < servers" using s lens(1) by (simp add: f)
    have sk: "s \<noteq> k" "serverOccupancy st ! s = Some c'" using o occ' [OF s'] by (auto split: if_splits)
    have "c' \<noteq> c" using only [OF s'] sk by auto
    moreover have "c' < length (remainingTimes st) \<and> \<not> servedMask st ! c'
        \<and> lastChunkStart st ! c' \<le> currentTime st"
      using p(3) s' sk(2) lens(1) unfolding inv2_occ_def by blast
    ultimately show "c' < length (remainingTimes st') \<and> \<not> servedMask st' ! c'
        \<and> lastChunkStart st' ! c' \<le> currentTime st'"
      by (simp add: f)
  qed
  have i4: "inv2_dist st'"
    unfolding inv2_dist_def
  proof (intro allI impI)
    fix s1 s2 c'
    assume s: "s1 < length (serverOccupancy st')" "s2 < length (serverOccupancy st')"
      and o: "serverOccupancy st' ! s1 = Some c' \<and> serverOccupancy st' ! s2 = Some c'"
    have s': "s1 < servers" "s2 < servers" using s lens(1) by (simp_all add: f)
    have "serverOccupancy st ! s1 = Some c'" "serverOccupancy st ! s2 = Some c'"
      using o occ' [OF s'(1)] occ' [OF s'(2)] by (auto split: if_splits)
    then show "s1 = s2" using p(4) s' lens(1) unfolding inv2_dist_def by blast
  qed
  have i5: "inv2_end st'"
    unfolding inv2_end_def
  proof (intro allI impI)
    fix i assume i: "i < length (servedMask st')" and sv: "servedMask st' ! i"
    have i': "i < length (servedMask st)" using i by (simp add: f)
    show "\<exists>x\<in>set (chunks st'). ch_label x = customer_label i \<and> ch_end x = serviceEnd st' ! i"
    proof (cases "i = c")
      case True
      have "ch \<in> set (chunks st')" by (simp add: f)
      moreover have "ch_label ch = customer_label i" "ch_end ch = serviceEnd st' ! i"
        using True c(1) lens(4) by (simp_all add: ch_def f)
      ultimately show ?thesis by blast
    next
      case False
      then have "servedMask st ! i" using sv by (simp add: f)
      then obtain x where "x \<in> set (chunks st)" "ch_label x = customer_label i"
        "ch_end x = serviceEnd st ! i"
        using p(5) i' unfolding inv2_end_def by blast
      then have "x \<in> set (chunks st')" "ch_label x = customer_label i"
        "ch_end x = serviceEnd st' ! i"
        using False by (simp_all add: f)
      then show ?thesis by blast
    qed
  qed
  have w1: "work_frame servers st0 (Suc k) st'"
  proof -
    have a: "serverOccupancy st' ! s = serverOccupancy st0 ! s" if "Suc k \<le> s \<and> s < servers" for s
    proof -
      have "serverOccupancy st ! s = serverOccupancy st0 ! s"
        using p(6) that unfolding work_frame_def by (meson Suc_leD)
      then show ?thesis using that occ' [of s] by simp
    qed
    have b: "serverOccupancy st0 ! s = Some c'"
      if "s < servers" "serverOccupancy st' ! s = Some c'" for s c'
    proof -
      have "serverOccupancy st ! s = Some c'" using that occ' [of s] by (auto split: if_splits)
      then show ?thesis using p(6) that(1) unfolding work_frame_def by blast
    qed
    have "currentTime st' = currentTime st0" "lastChunkStart st' = lastChunkStart st0"
      using p(6) by (simp_all add: work_frame_def f)
    then show ?thesis unfolding work_frame_def using a b by blast
  qed
  have w2: "work_min servers (nxt - currentTime st0) (Suc k) st'"
    unfolding work_min_def
  proof (intro allI impI)
    fix s c' assume s: "Suc k \<le> s \<and> s < servers" and o: "serverOccupancy st' ! s = Some c'"
    have o': "serverOccupancy st ! s = Some c'" using o s occ' [of s] by (auto split: if_splits)
    have "c' \<noteq> c" using only [of s] s o' by auto
    moreover have "nxt - currentTime st0 \<le> remainingTimes st ! c'"
      using p(7) s o' unfolding work_min_def by (meson Suc_leD)
    ultimately show "nxt - currentTime st0 \<le> remainingTimes st' ! c'"
      by (simp add: f)
  qed
  have w3: "work_sum svc nxt (Suc k) st'"
    unfolding work_sum_def
  proof (intro allI impI)
    fix i assume i: "i < length svc"
    have old: "chunk_sum (customer_label i) (chunks st)
        + (if on_server st i
           then (if \<exists>s < k. serverOccupancy st ! s = Some i then nxt else currentTime st)
                - lastChunkStart st ! i
           else 0)
        = svc ! i - remainingTimes st ! i"
      using p(8) i unfolding work_sum_def by blast
    show "chunk_sum (customer_label i) (chunks st')
        + (if on_server st' i
           then (if \<exists>s < Suc k. serverOccupancy st' ! s = Some i then nxt else currentTime st')
                - lastChunkStart st' ! i
           else 0)
        = svc ! i - remainingTimes st' ! i"
    proof (cases "i = c")
      case True
      have a: "on_server st c" using k occ by (auto simp: on_server_nth)
      have b: "\<not> (\<exists>s < k. serverOccupancy st ! s = Some c)"
        using only assms(2) by (metis less_trans nat_neq_iff)
      have "chunk_sum (customer_label c) (chunks st) + (currentTime st - lastChunkStart st ! c)
            = svc ! c - remainingTimes st ! c"
        using old a b unfolding True by simp
      then show ?thesis using c(1) exact unfolding True
        by (simp add: on f ch_def j_def)
    next
      case False
      have e: "(\<exists>s < Suc k. serverOccupancy st' ! s = Some i) \<longleftrightarrow> (\<exists>s < k. serverOccupancy st ! s = Some i)"
      proof
        assume "\<exists>s < Suc k. serverOccupancy st' ! s = Some i"
        then obtain s where s: "s < Suc k" "serverOccupancy st' ! s = Some i" by blast
        then have "s < servers" using assms(2) by simp
        then have "s \<noteq> k" "serverOccupancy st ! s = Some i"
          using s(2) occ' [of s] by (auto split: if_splits)
        then show "\<exists>s < k. serverOccupancy st ! s = Some i" using s(1) by (auto simp: less_Suc_eq)
      next
        assume "\<exists>s < k. serverOccupancy st ! s = Some i"
        then obtain s where s: "s < k" "serverOccupancy st ! s = Some i" by blast
        then have "serverOccupancy st' ! s = Some i" using occ' [of s] assms(2) by simp
        then show "\<exists>s < Suc k. serverOccupancy st' ! s = Some i" using s(1) less_Suc_eq by blast
      qed
      have r: "remainingTimes st' ! i = remainingTimes st ! i" using False by (simp add: f)
      have cs: "chunk_sum (customer_label i) (chunks st') = chunk_sum (customer_label i) (chunks st)"
        using False by (simp add: f ch_def)
      have o: "on_server st' i = on_server st i" using False by (simp add: on)
      show ?thesis unfolding e r cs o f(1,8) by (rule old)
    qed
  qed
  have w4: "work_less st0 (Suc k) st'"
  proof -
    have "sum_list (remainingTimes st') = sum_list (remainingTimes st) - j"
      using c(1) exact by (simp add: f sum_list_update_int)
    moreover have "sum_list (remainingTimes st) \<le> sum_list (remainingTimes st0)"
      using p(9) by (simp add: work_less_def)
    ultimately show ?thesis using jump(1) by (simp add: work_less_def j_def)
  qed
  show ?thesis unfolding res work_inv_def using i1 i2 i3 i4 i5 w1 w2 w3 w4 by blast
qed


lemma work_inv_step:
  assumes "work_inv arr svc servers st0 nxt k st" and "k < servers"
    and "currentTime st0 < nxt"
  shows "work_inv arr svc servers st0 nxt (Suc k) (execute_work nxt k st)"
proof (cases "serverOccupancy st ! k")
  case None
  then show ?thesis
    using work_inv_idle [OF assms(1,2)] by (simp add: execute_work_idle)
next
  case (Some c)
  have t0: "currentTime st = currentTime st0"
    using work_inv_parts(6) [OF assms(1)] by (simp add: work_frame_def)
  then have pos: "0 < nxt - currentTime st" using assms(3) by simp
  show ?thesis
  proof (cases "nxt - currentTime st < remainingTimes st ! c")
    case True
    show ?thesis by (rule work_inv_going [OF assms(1,2) Some pos True])
  next
    case False
    then have "remainingTimes st ! c \<le> nxt - currentTime st" by simp
    then show ?thesis by (rule work_inv_done [OF assms(1,2) Some pos])
  qed
qed

lemma work_inv_fold:
  assumes "work_inv arr svc servers st0 nxt 0 st" and "m \<le> servers"
    and "currentTime st0 < nxt"
  shows "work_inv arr svc servers st0 nxt m (fold (execute_work nxt) [0..<m] st)"
  using assms(2)
proof (induction m)
  case 0
  then show ?case using assms(1) by simp
next
  case (Suc m)
  then have "work_inv arr svc servers st0 nxt m (fold (execute_work nxt) [0..<m] st)" by simp
  then have "work_inv arr svc servers st0 nxt (Suc m)
      (execute_work nxt m (fold (execute_work nxt) [0..<m] st))"
    using Suc.prems assms(3) by (intro work_inv_step) simp_all
  then show ?case by simp
qed

subsection \<open>One iteration of the multi-server loop\<close>

lemma inv2_parts:
  assumes "inv2 arr svc servers st"
  shows "inv2_len arr svc servers st" "inv_rem st" "inv2_occ st" "inv2_dist st"
    "inv2_sum svc st" "inv2_end st"
  using assms by (simp_all add: inv2_def)

lemma mid_inv_start:
  assumes "inv2 arr svc servers st"
  shows "mid_inv arr svc servers st
           (filter (\<lambda>i. \<not> servedMask st ! i \<and> arr ! i \<le> currentTime st
                        \<and> Some i \<notin> set (serverOccupancy st)) [0..<length arr], st)"
proof -
  have "length (remainingTimes st) = length arr"
    using inv2_parts(1) [OF assms] by (simp add: inv2_len_def)
  then have "pool_ok (filter (\<lambda>i. \<not> servedMask st ! i \<and> arr ! i \<le> currentTime st
                        \<and> Some i \<notin> set (serverOccupancy st)) [0..<length arr]) st"
    by (simp add: pool_ok_def on_server_def)
  then show ?thesis using assms by (simp add: mid_inv_def)
qed

lemma mid_inv_rebase:
  assumes "mid_inv arr svc servers st0 ps"
  shows "mid_inv arr svc servers (snd ps) ps"
  using assms by (simp add: mid_inv_def)

lemma mid_inv_busy:
  assumes "mid_inv arr svc servers st0 ps" and "s < servers"
    and "serverOccupancy st0 ! s \<noteq> None"
  shows "serverOccupancy (snd ps) ! s \<noteq> None"
  using assms unfolding mid_inv_def by blast

lemma upt_servers: "k \<in> set [i..<servers] \<Longrightarrow> k < servers"
  by simp

lemma assign_first_server:
  assumes "mid_inv arr svc servers st ps" and "0 < servers" and "fst ps \<noteq> []"
  shows "serverOccupancy (snd (assign_idle prio up 0 ps)) ! 0 \<noteq> None"
proof (cases "serverOccupancy (snd ps) ! 0 = None")
  case True
  have "length (serverOccupancy (snd ps)) = servers"
    using assms(1) by (simp add: mid_inv_def inv2_def inv2_len_def)
  then show ?thesis
    using True assms(2,3) by (simp add: assign_idle_def Let_def install_simps)
next
  case False
  then show ?thesis by (auto simp: assign_idle_def Let_def)
qed

text \<open>The pool and the state after steps 2 and 3.\<close>

lemma steps23:
  fixes prio :: "int list" and up :: bool
  assumes "inv2 arr svc servers st"
  defines "pool0 \<equiv> filter (\<lambda>i. \<not> servedMask st ! i \<and> arr ! i \<le> currentTime st
                        \<and> Some i \<notin> set (serverOccupancy st)) [0..<length arr]"
  defines "ps2 \<equiv> fold (assign_idle prio up) [0..<servers] (pool0, st)"
  defines "ps3 \<equiv> (if up \<and> fst ps2 \<noteq> [] then fold (preempt prio) [0..<servers] ps2 else ps2)"
  shows "mid_inv arr svc servers st ps3"
    and "0 < servers \<Longrightarrow> pool0 \<noteq> [] \<Longrightarrow> serverOccupancy (snd ps3) ! 0 \<noteq> None"
proof -
  have m0: "mid_inv arr svc servers st (pool0, st)"
    unfolding pool0_def by (rule mid_inv_start [OF assms(1)])
  have m2: "mid_inv arr svc servers st ps2"
    unfolding ps2_def
    by (rule fold_mid [OF assign_idle_mid m0]) (simp_all add: upt_servers)
  have m23: "mid_inv arr svc servers (snd ps2) ps3"
  proof (cases "up \<and> fst ps2 \<noteq> []")
    case True
    then have e: "ps3 = fold (preempt prio) [0..<servers] ps2" by (simp add: ps3_def)
    show ?thesis
      unfolding e
      by (rule fold_mid [OF preempt_mid mid_inv_rebase [OF m2]]) (simp_all add: upt_servers)
  next
    case False
    then have "ps3 = ps2" by (auto simp: ps3_def)
    then show ?thesis using mid_inv_rebase [OF m2] by simp
  qed
  show "mid_inv arr svc servers st ps3"
  proof (cases "up \<and> fst ps2 \<noteq> []")
    case True
    then have e: "ps3 = fold (preempt prio) [0..<servers] ps2" by (simp add: ps3_def)
    show ?thesis
      unfolding e by (rule fold_mid [OF preempt_mid m2]) (simp_all add: upt_servers)
  next
    case False
    then have "ps3 = ps2" by (auto simp: ps3_def)
    then show ?thesis using m2 by simp
  qed
  show "serverOccupancy (snd ps3) ! 0 \<noteq> None" if s: "0 < servers" and ne: "pool0 \<noteq> []"
  proof -
    define ps1 where "ps1 = assign_idle prio up 0 (pool0, st)"
    have m1: "mid_inv arr svc servers st ps1"
      unfolding ps1_def by (rule assign_idle_mid [OF m0 s])
    have b1: "serverOccupancy (snd ps1) ! 0 \<noteq> None"
      unfolding ps1_def using assign_first_server [OF m0 s] ne by simp
    have "[0..<servers] = 0 # [Suc 0..<servers]" using s by (simp add: upt_conv_Cons)
    then have e: "ps2 = fold (assign_idle prio up) [Suc 0..<servers] ps1"
      by (simp add: ps2_def ps1_def)
    have "mid_inv arr svc servers (snd ps1) ps2"
      unfolding e
      by (rule fold_mid [OF assign_idle_mid mid_inv_rebase [OF m1]]) (simp_all add: upt_servers)
    then have "serverOccupancy (snd ps2) ! 0 \<noteq> None"
      using mid_inv_busy s b1 by blast
    then show ?thesis using mid_inv_busy [OF m23 s] by blast
  qed
qed


lemma events_member:
  "e \<in> set (possibleEvents arr st) \<longleftrightarrow>
     find (\<lambda>a. currentTime st < a) arr = Some e
     \<or> (\<exists>s < length (serverOccupancy st). \<exists>c. serverOccupancy st ! s = Some c
            \<and> e = currentTime st + remainingTimes st ! c)"
proof -
  have "e \<in> set (concat (map (\<lambda>occ. case occ of None \<Rightarrow> []
                                    | Some cIdx \<Rightarrow> [currentTime st + remainingTimes st ! cIdx])
                 (serverOccupancy st)))
        \<longleftrightarrow> (\<exists>x \<in> set (serverOccupancy st). \<exists>c. x = Some c
              \<and> e = currentTime st + remainingTimes st ! c)"
    by (auto split: option.splits)
  also have "\<dots> \<longleftrightarrow> (\<exists>s < length (serverOccupancy st). \<exists>c. serverOccupancy st ! s = Some c
            \<and> e = currentTime st + remainingTimes st ! c)"
    by (metis in_set_conv_nth)
  finally show ?thesis by (auto simp: possibleEvents_def split: option.splits)
qed

lemma events_later:
  assumes "inv_rem st" and "inv2_occ st" and "e \<in> set (possibleEvents arr st)"
  shows "currentTime st < e"
proof -
  consider (arrival) "find (\<lambda>a. currentTime st < a) arr = Some e"
    | (work) s c where "s < length (serverOccupancy st)" "serverOccupancy st ! s = Some c"
        "e = currentTime st + remainingTimes st ! c"
    using assms(3) unfolding events_member by blast
  then show ?thesis
  proof cases
    case arrival
    then show ?thesis by (auto simp: find_Some_iff)
  next
    case work
    have "c < length (remainingTimes st) \<and> \<not> servedMask st ! c"
      using assms(2) work(1,2) unfolding inv2_occ_def by blast
    then have "0 < remainingTimes st ! c" using assms(1) unfolding inv_rem_def by blast
    then show ?thesis using work(3) by simp
  qed
qed

lemma filter_count_le:
  assumes "\<And>x. P x \<Longrightarrow> Q x"
  shows "length (filter P xs) \<le> length (filter Q xs)"
  using assms by (induction xs) auto

lemma filter_count_less:
  assumes "\<And>x. P x \<Longrightarrow> Q x" and "a \<in> set xs" and "Q a" and "\<not> P a"
  shows "length (filter P xs) < length (filter Q xs)"
  using assms(2)
proof (induction xs)
  case Nil
  then show ?case by simp
next
  case (Cons x xs)
  show ?case
  proof (cases "x = a")
    case True
    then show ?thesis
      using assms(3,4) filter_count_le [of P Q xs, OF assms(1)] by simp
  next
    case False
    then have "length (filter P xs) < length (filter Q xs)" using Cons by simp
    then show ?thesis using assms(1) [of x] by auto
  qed
qed

lemma work_inv_start:
  assumes "inv2 arr svc servers st" and "events = possibleEvents arr st" and "events \<noteq> []"
  shows "work_inv arr svc servers st (Min (set events)) 0 st"
proof -
  note p = inv2_parts [OF assms(1)]
  have lens: "length (serverOccupancy st) = servers" using p(1) by (simp add: inv2_len_def)
  have "work_frame servers st 0 st" by (simp add: work_frame_def)
  moreover have "work_min servers (Min (set events) - currentTime st) 0 st"
    unfolding work_min_def
  proof (intro allI impI)
    fix s c assume s: "0 \<le> s \<and> s < servers" and o: "serverOccupancy st ! s = Some c"
    have "currentTime st + remainingTimes st ! c \<in> set events"
      unfolding assms(2) events_member using s o lens by blast
    then have "Min (set events) \<le> currentTime st + remainingTimes st ! c" by simp
    then show "Min (set events) - currentTime st \<le> remainingTimes st ! c" by simp
  qed
  moreover have "work_sum svc (Min (set events)) 0 st"
    using p(5) by (auto simp: work_sum_def inv2_sum_def)
  moreover have "work_less st 0 st" by (simp add: work_less_def)
  ultimately show ?thesis unfolding work_inv_def using p(1,2,3,4,6) by blast
qed

lemma inv2_after_work:
  assumes "work_inv arr svc servers st0 nxt servers st" and "currentTime st0 < nxt"
  shows "inv2 arr svc servers (st\<lparr>currentTime := nxt\<rparr>)"
proof -
  note p = work_inv_parts [OF assms(1)]
  define st' where "st' = st\<lparr>currentTime := nxt\<rparr>"
  have f: "currentTime st' = nxt" "remainingTimes st' = remainingTimes st"
    "servedMask st' = servedMask st" "chunks st' = chunks st"
    "serviceStart st' = serviceStart st" "serviceEnd st' = serviceEnd st"
    "serverAssigned st' = serverAssigned st" "serverOccupancy st' = serverOccupancy st"
    "lastChunkStart st' = lastChunkStart st"
    by (simp_all add: st'_def)
  have on: "on_server st' i = on_server st i" for i by (simp add: on_server_def f)
  have lens: "length (serverOccupancy st) = servers" using p(1) by (simp add: inv2_len_def)
  have t0: "currentTime st = currentTime st0" using p(6) by (simp add: work_frame_def)
  have "inv2_len arr svc servers st'" using p(1) by (simp add: inv2_len_def f)
  moreover have "inv_rem st'" using p(2) unfolding inv_rem_def f .
  moreover have "inv2_occ st'"
    unfolding inv2_occ_def f
  proof (intro allI impI)
    fix s c assume "s < length (serverOccupancy st)" "serverOccupancy st ! s = Some c"
    then have "c < length (remainingTimes st) \<and> \<not> servedMask st ! c
        \<and> lastChunkStart st ! c \<le> currentTime st"
      using p(3) unfolding inv2_occ_def by blast
    then show "c < length (remainingTimes st) \<and> \<not> servedMask st ! c
        \<and> lastChunkStart st ! c \<le> nxt"
      using assms(2) t0 by simp
  qed
  moreover have "inv2_dist st'" using p(4) unfolding inv2_dist_def f .
  moreover have "inv2_end st'" using p(5) unfolding inv2_end_def f .
  moreover have "inv2_sum svc st'"
    unfolding inv2_sum_def f on
  proof (intro allI impI)
    fix i assume i: "i < length svc"
    have old: "chunk_sum (customer_label i) (chunks st)
        + (if on_server st i
           then (if \<exists>s < servers. serverOccupancy st ! s = Some i then nxt else currentTime st)
                - lastChunkStart st ! i
           else 0)
        = svc ! i - remainingTimes st ! i"
      using p(8) i unfolding work_sum_def by blast
    have "\<exists>s < servers. serverOccupancy st ! s = Some i" if "on_server st i"
      using that unfolding on_server_nth lens .
    then show "chunk_sum (customer_label i) (chunks st)
        + (if on_server st i then nxt - lastChunkStart st ! i else 0)
        = svc ! i - remainingTimes st ! i"
      using old by (cases "on_server st i") simp_all
  qed
  ultimately show ?thesis unfolding st'_def [symmetric] inv2_def by blast
qed


lemma mms_step_progress:
  fixes prio :: "int list" and up :: bool
  assumes "inv2 arr svc servers st" and "\<not> list_all (\<lambda>b. b) (servedMask st)"
    and "0 < servers"
  shows "\<exists>st'. mms_step arr prio servers up st = Inr st' \<and> inv2 arr svc servers st'
               \<and> measure2 arr st' < measure2 arr st"
proof -
  define pool0 where "pool0 = filter (\<lambda>i. \<not> servedMask st ! i \<and> arr ! i \<le> currentTime st
                        \<and> Some i \<notin> set (serverOccupancy st)) [0..<length arr]"
  define ps2 where "ps2 = fold (assign_idle prio up) [0..<servers] (pool0, st)"
  define ps3 where "ps3 = (if up \<and> fst ps2 \<noteq> [] then fold (preempt prio) [0..<servers] ps2 else ps2)"
  define st3 where "st3 = snd ps3"
  define events where "events = possibleEvents arr st3"
  define nxt where "nxt = Min (set events)"
  define st5 where "st5 = fold (execute_work nxt) [0..<servers] st3"
  have m3: "mid_inv arr svc servers st ps3"
    unfolding ps3_def ps2_def pool0_def by (rule steps23(1) [OF assms(1)])
  have first: "serverOccupancy st3 ! 0 \<noteq> None" if "pool0 \<noteq> []"
    using steps23(2) [OF assms(1,3), where prio = prio and up = up] that
    unfolding st3_def ps3_def ps2_def pool0_def by blast
  have inv3: "inv2 arr svc servers st3"
    and keep: "currentTime st3 = currentTime st" "remainingTimes st3 = remainingTimes st"
      "servedMask st3 = servedMask st"
    using m3 by (simp_all add: mid_inv_def st3_def)
  note p3 = inv2_parts [OF inv3]
  note p = inv2_parts [OF assms(1)]
  have lens: "length (serverOccupancy st3) = servers" "length (servedMask st) = length arr"
    "length (serverOccupancy st) = servers"
    using p3(1) p(1) by (simp_all add: inv2_len_def)
  have later: "currentTime st < e" if "e \<in> set events" for e
    using events_later [OF p3(2,3), of e arr] that by (simp add: events_def keep)
  have step: "mms_step arr prio servers up st
      = (if events = [] then Inl st3 else Inr (st5\<lparr>currentTime := nxt\<rparr>))"
    unfolding mms_step_def st5_def nxt_def events_def st3_def ps3_def ps2_def pool0_def Let_def
    by (rule refl)
  show ?thesis
  proof (cases "\<exists>s < servers. serverOccupancy st3 ! s \<noteq> None")
    case True
    then obtain s c where s: "s < servers" "serverOccupancy st3 ! s = Some c" by auto
    then have "currentTime st3 + remainingTimes st3 ! c \<in> set events"
      unfolding events_def events_member lens(1) by blast
    then have ne: "events \<noteq> []" by auto
    then have "nxt \<in> set events" unfolding nxt_def by (intro Min_in) simp_all
    then have tn: "currentTime st3 < nxt" using later keep by simp
    have "work_inv arr svc servers st3 nxt 0 st3"
      unfolding nxt_def by (rule work_inv_start [OF inv3 events_def ne])
    then have w5: "work_inv arr svc servers st3 nxt servers st5"
      unfolding st5_def using tn by (intro work_inv_fold) simp_all
    have i': "inv2 arr svc servers (st5\<lparr>currentTime := nxt\<rparr>)"
      by (rule inv2_after_work [OF w5 tn])
    have "sum_list (remainingTimes st5) < sum_list (remainingTimes st3)"
      using work_inv_parts(9) [OF w5] True unfolding work_less_def by blast
    moreover have "0 \<le> sum_list (remainingTimes st5)"
      using remaining_nonneg [OF work_inv_parts(2) [OF w5]] by (rule sum_list_nonneg_int)
    ultimately have "nat (sum_list (remainingTimes st5)) < nat (sum_list (remainingTimes st))"
      using keep by simp
    moreover have "length (filter (\<lambda>a. nxt < a) arr) \<le> length (filter (\<lambda>a. currentTime st < a) arr)"
      using tn keep by (intro filter_count_le) simp
    ultimately have "nat (sum_list (remainingTimes st5)) + length (filter (\<lambda>a. nxt < a) arr)
        < nat (sum_list (remainingTimes st)) + length (filter (\<lambda>a. currentTime st < a) arr)"
      by linarith
    then have "measure2 arr (st5\<lparr>currentTime := nxt\<rparr>) < measure2 arr st"
      by (simp add: measure2_def)
    then show ?thesis using step ne i' by simp
  next
    case False
    then have idle: "serverOccupancy st3 ! s = None" if "s < servers" for s using that by blast
    have "pool0 = []" using first idle [OF assms(3)] by blast
    obtain i where i: "i < length arr" "\<not> servedMask st ! i"
      using assms(2) lens(2) by (auto simp: list_all_length)
    have "i \<notin> set pool0" using \<open>pool0 = []\<close> by simp
    then have "currentTime st < arr ! i \<or> Some i \<in> set (serverOccupancy st)"
      using i by (auto simp: pool0_def)
    moreover have "Some i \<notin> set (serverOccupancy st)"
    proof
      assume "Some i \<in> set (serverOccupancy st)"
      then obtain s where "s < servers" "serverOccupancy st ! s = Some i"
        using lens(3) by (auto simp: in_set_conv_nth)
      then have "serverOccupancy (snd ps3) ! s \<noteq> None" using mid_inv_busy [OF m3] by simp
      then show False using idle [of s] \<open>s < servers\<close> by (simp add: st3_def)
    qed
    ultimately have "currentTime st < arr ! i" by blast
    moreover have "arr ! i \<in> set arr" using i(1) by simp
    ultimately have "find (\<lambda>a. currentTime st3 < a) arr \<noteq> None"
      unfolding find_None_iff keep by blast
    then obtain a where a: "find (\<lambda>a. currentTime st3 < a) arr = Some a" by blast
    then have "a \<in> set events" unfolding events_def events_member by blast
    then have ne: "events \<noteq> []" by auto
    then have nin: "nxt \<in> set events" unfolding nxt_def by (intro Min_in) simp_all
    then have tn: "currentTime st3 < nxt" using later keep by simp
    have "find (\<lambda>a. currentTime st3 < a) arr = Some nxt"
      using nin idle unfolding events_def events_member lens(1) by auto
    then have arrival: "nxt \<in> set arr" by (auto simp: find_Some_iff)
    have "work_inv arr svc servers st3 nxt 0 st3"
      unfolding nxt_def by (rule work_inv_start [OF inv3 events_def ne])
    then have w5: "work_inv arr svc servers st3 nxt servers st5"
      unfolding st5_def using tn by (intro work_inv_fold) simp_all
    have i': "inv2 arr svc servers (st5\<lparr>currentTime := nxt\<rparr>)"
      by (rule inv2_after_work [OF w5 tn])
    have "sum_list (remainingTimes st5) \<le> sum_list (remainingTimes st3)"
      using work_inv_parts(9) [OF w5] unfolding work_less_def by blast
    then have "nat (sum_list (remainingTimes st5)) \<le> nat (sum_list (remainingTimes st))"
      using keep by simp
    moreover have "length (filter (\<lambda>a. nxt < a) arr) < length (filter (\<lambda>a. currentTime st < a) arr)"
      using tn keep arrival by (intro filter_count_less [of _ _ nxt]) simp_all
    ultimately have "nat (sum_list (remainingTimes st5)) + length (filter (\<lambda>a. nxt < a) arr)
        < nat (sum_list (remainingTimes st)) + length (filter (\<lambda>a. currentTime st < a) arr)"
      by linarith
    then have "measure2 arr (st5\<lparr>currentTime := nxt\<rparr>) < measure2 arr st"
      by (simp add: measure2_def)
    then show ?thesis using step ne i' by simp
  qed
qed

lemma mms_loop_total:
  fixes prio :: "int list" and up :: bool
  assumes "inv2 arr svc servers st" and "0 < servers"
  shows "\<exists>st'. mms_loop arr prio servers up st = Some st' \<and> inv2 arr svc servers st'
               \<and> list_all (\<lambda>b. b) (servedMask st')"
  using assms(1)
proof (induction "measure2 arr st" arbitrary: st rule: less_induct)
  case less
  show ?case
  proof (cases "list_all (\<lambda>b. b) (servedMask st)")
    case True
    then show ?thesis using less.prems by (subst mms_loop.simps) simp
  next
    case False
    obtain st' where st': "mms_step arr prio servers up st = Inr st'" "inv2 arr svc servers st'"
      "measure2 arr st' < measure2 arr st"
      using mms_step_progress [OF less.prems False assms(2)] by blast
    have "mms_loop arr prio servers up st = mms_loop arr prio servers up st'"
      using False st'(1) by (subst mms_loop.simps) simp
    then show ?thesis using less.hyps [OF st'(3) st'(2)] by simp
  qed
qed

lemma inv2_init:
  assumes "sim_input arr svc prio"
  shows "inv2 arr svc servers (mms_init arr svc servers)"
proof -
  have "inv_rem (mms_init arr svc servers)"
    using assms by (auto simp: inv_rem_def mms_init_def Let_def sim_input_def list_all_length)
  moreover have "inv2_len arr svc servers (mms_init arr svc servers)"
    using assms by (simp add: inv2_len_def mms_init_def Let_def sim_input_def)
  moreover have "inv2_sum svc (mms_init arr svc servers)"
    by (simp add: inv2_sum_def mms_init_def Let_def on_server_def)
  ultimately show ?thesis
    by (simp add: inv2_def inv2_occ_def inv2_dist_def inv2_end_def mms_init_def Let_def)
qed


subsection \<open>The runs of the two loops\<close>

lemma mm1_run:
  assumes "sim_input arr svc prio"
  shows "\<exists>st. mm1_loop arr prio up (mm1_init arr svc) = Some st \<and> inv1 arr svc st
              \<and> list_all (\<lambda>b. b) (servedMask st)"
  by (rule mm1_loop_total [OF inv1_init [OF assms]])

lemma mms_run:
  fixes prio :: "int list" and up :: bool
  assumes "sim_input arr svc prio" and "0 < servers"
  shows "\<exists>st. mms_loop arr prio servers up (mms_init arr svc servers) = Some st
              \<and> inv2 arr svc servers st \<and> list_all (\<lambda>b. b) (servedMask st)"
  by (rule mms_loop_total [OF inv2_init [OF assms(1)] assms(2)])

lemma mm1_final_sum:
  assumes "inv1 arr svc st" and "list_all (\<lambda>b. b) (servedMask st)" and "i < length arr"
  shows "chunk_sum (customer_label i) (chunks st) = svc ! i"
proof -
  have len: "inv_len arr svc st" and rem: "inv_rem st" and sum: "inv_sum svc st"
    using assms(1) by (simp_all add: inv1_def)
  have i: "i < length (remainingTimes st)" "i < length (servedMask st)" "i < length svc"
    using len assms(3) by (simp_all add: inv_len_def)
  have "servedMask st ! i" using assms(2) i(2) by (simp add: list_all_length)
  then have "remainingTimes st ! i = 0" using rem i(1) unfolding inv_rem_def by blast
  moreover have "chunk_sum (customer_label i) (chunks st) = svc ! i - remainingTimes st ! i"
    using sum i(3) unfolding inv_sum_def by blast
  ultimately show ?thesis by simp
qed

lemma mms_final_sum:
  assumes "inv2 arr svc servers st" and "list_all (\<lambda>b. b) (servedMask st)" and "i < length arr"
  shows "chunk_sum (customer_label i) (chunks st) = svc ! i"
proof -
  note p = inv2_parts [OF assms(1)]
  have i: "i < length (remainingTimes st)" "i < length (servedMask st)" "i < length svc"
    using p(1) assms(3) by (simp_all add: inv2_len_def)
  have sv: "servedMask st ! i" using assms(2) i(2) by (simp add: list_all_length)
  then have r: "remainingTimes st ! i = 0" using p(2) i(1) unfolding inv_rem_def by blast
  have "\<not> on_server st i"
  proof
    assume "on_server st i"
    then obtain s where "s < length (serverOccupancy st)" "serverOccupancy st ! s = Some i"
      unfolding on_server_nth by blast
    then have "\<not> servedMask st ! i" using p(3) unfolding inv2_occ_def by blast
    then show False using sv by simp
  qed
  moreover have "chunk_sum (customer_label i) (chunks st)
        + (if on_server st i then currentTime st - lastChunkStart st ! i else 0)
        = svc ! i - remainingTimes st ! i"
    using p(5) i(3) unfolding inv2_sum_def by blast
  ultimately show ?thesis using r by simp
qed

text \<open>
  Claim C1. In each of the four simulations, run on one arrival time, one service time
  of at least 1 and one priority per customer (and at least one server), the durations of
  the chunks that carry a customer's label add up to the customer's service time.
\<close>

theorem chunk_durations_add_up:
  assumes "sim_input arrivalTimes serviceTimes priorities" and "0 < servers"
  shows "(\<exists>r. mm1Simulation arrivalTimes serviceTimes priorities usePriority = Some r
            \<and> (\<forall>i < length arrivalTimes.
                  chunk_sum (customer_label i) (res_chunks r) = serviceTimes ! i))
       \<and> (\<exists>r. mg1Simulation arrivalTimes serviceTimes priorities usePriority = Some r
            \<and> (\<forall>i < length arrivalTimes.
                  chunk_sum (customer_label i) (res_chunks r) = serviceTimes ! i))
       \<and> (\<exists>r. mmsSSimulation arrivalTimes serviceTimes priorities servers usePriority = Some r
            \<and> (\<forall>i < length arrivalTimes.
                  chunk_sum (customer_label i) (res_chunks r) = serviceTimes ! i))
       \<and> (\<exists>r. mgsSSimulation arrivalTimes serviceTimes priorities servers usePriority = Some r
            \<and> (\<forall>i < length arrivalTimes.
                  chunk_sum (customer_label i) (res_chunks r) = serviceTimes ! i))"
proof -
  obtain st where st: "mm1_loop arrivalTimes priorities usePriority
        (mm1_init arrivalTimes serviceTimes) = Some st"
    "inv1 arrivalTimes serviceTimes st" "list_all (\<lambda>b. b) (servedMask st)"
    using mm1_run [OF assms(1)] by blast
  have one: "\<exists>r. mm1Simulation arrivalTimes serviceTimes priorities usePriority = Some r
            \<and> (\<forall>i < length arrivalTimes.
                  chunk_sum (customer_label i) (res_chunks r) = serviceTimes ! i)"
    using mm1_final_sum [OF st(2,3)] by (simp add: mm1Simulation_def st(1) Let_def)
  obtain sm where sm: "mms_loop arrivalTimes priorities servers usePriority
        (mms_init arrivalTimes serviceTimes servers) = Some sm"
    "inv2 arrivalTimes serviceTimes servers sm" "list_all (\<lambda>b. b) (servedMask sm)"
    using mms_run [OF assms] by blast
  have many: "\<exists>r. mmsSSimulation arrivalTimes serviceTimes priorities servers usePriority = Some r
            \<and> (\<forall>i < length arrivalTimes.
                  chunk_sum (customer_label i) (res_chunks r) = serviceTimes ! i)"
    using mms_final_sum [OF sm(2,3)] by (simp add: mmsSSimulation_def sm(1) Let_def)
  show ?thesis using one many by (simp add: mg1Simulation_def mgsSSimulation_def)
qed

theorem chunk_durations_add_up_witness:
  "sim_input [0, 2, 3] [3, 1, 2] [3, 2, 1] \<and> (0::nat) < 2
   \<and> (\<exists>r. mm1Simulation [0, 2, 3] [3, 1, 2] [3, 2, 1] True = Some r
         \<and> chunk_sum (customer_label 0) (res_chunks r) = 3)
   \<and> (\<exists>r. mmsSSimulation [0, 2, 3] [3, 1, 2] [3, 2, 1] 2 True = Some r
         \<and> chunk_sum (customer_label 0) (res_chunks r) = 3)
   \<and> chunk_triples (mm1Simulation [0, 2, 3] [3, 1, 2] [3, 2, 1] True)
       = Some [(''C1'', 0, 2), (''C2'', 2, 3), (''C3'', 3, 5), (''C1'', 5, 6)]"
proof -
  have h: "sim_input [0, 2, 3] [3, 1, 2] [3, 2, 1]" by (simp add: sim_input_def)
  have e: "chunk_triples (mm1Simulation [0, 2, 3] [3, 1, 2] [3, 2, 1] True)
       = Some [(''C1'', 0, 2), (''C2'', 2, 3), (''C3'', 3, 5), (''C1'', 5, 6)]"
    by code_simp
  show ?thesis
    using chunk_durations_add_up [OF h, of 2 True] h e by fastforce
qed


text \<open>
  Claim C2. On one arrival time, one service time of at least 1 and one priority per
  customer, and with at least one server, the loop of \<open>mm1Simulation\<close> and
  \<open>mg1Simulation\<close> and the loop of \<open>mmsSSimulation\<close> and \<open>mgsSSimulation\<close> terminate, and
  in the state they end in every customer is marked served and its \<open>serviceEnd\<close> is the
  end of one of its chunks.
\<close>

theorem loops_terminate_with_all_served:
  assumes "sim_input arrivalTimes serviceTimes priorities" and "0 < servers"
  shows "(\<exists>st. mm1_loop arrivalTimes priorities usePriority (mm1_init arrivalTimes serviceTimes)
               = Some st
            \<and> length (servedMask st) = length arrivalTimes
            \<and> list_all (\<lambda>b. b) (servedMask st)
            \<and> (\<forall>i < length arrivalTimes. \<exists>c \<in> set (chunks st).
                  ch_label c = customer_label i \<and> ch_end c = serviceEnds st ! i))
       \<and> (\<exists>st. mms_loop arrivalTimes priorities servers usePriority
                 (mms_init arrivalTimes serviceTimes servers) = Some st
            \<and> length (servedMask st) = length arrivalTimes
            \<and> list_all (\<lambda>b. b) (servedMask st)
            \<and> (\<forall>i < length arrivalTimes. \<exists>c \<in> set (chunks st).
                  ch_label c = customer_label i \<and> ch_end c = serviceEnd st ! i))"
proof -
  obtain st where st: "mm1_loop arrivalTimes priorities usePriority
        (mm1_init arrivalTimes serviceTimes) = Some st"
    "inv1 arrivalTimes serviceTimes st" "list_all (\<lambda>b. b) (servedMask st)"
    using mm1_run [OF assms(1)] by blast
  have len1: "length (servedMask st) = length arrivalTimes"
    using st(2) by (simp add: inv1_def inv_len_def)
  have end1: "\<exists>c \<in> set (chunks st). ch_label c = customer_label i \<and> ch_end c = serviceEnds st ! i"
    if "i < length arrivalTimes" for i
  proof -
    have "servedMask st ! i" using st(3) that len1 by (simp add: list_all_length)
    moreover have "inv_end st" using st(2) by (simp add: inv1_def)
    ultimately show ?thesis using that len1 unfolding inv_end_def by simp
  qed
  obtain sm where sm: "mms_loop arrivalTimes priorities servers usePriority
        (mms_init arrivalTimes serviceTimes servers) = Some sm"
    "inv2 arrivalTimes serviceTimes servers sm" "list_all (\<lambda>b. b) (servedMask sm)"
    using mms_run [OF assms] by blast
  have len2: "length (servedMask sm) = length arrivalTimes"
    using sm(2) by (simp add: inv2_def inv2_len_def)
  have end2: "\<exists>c \<in> set (chunks sm). ch_label c = customer_label i \<and> ch_end c = serviceEnd sm ! i"
    if "i < length arrivalTimes" for i
  proof -
    have "servedMask sm ! i" using sm(3) that len2 by (simp add: list_all_length)
    moreover have "inv2_end sm" using sm(2) by (simp add: inv2_def)
    ultimately show ?thesis using that len2 unfolding inv2_end_def by simp
  qed
  show ?thesis using st(1,3) len1 end1 sm(1,3) len2 end2 by simp
qed

theorem loops_terminate_with_all_served_witness:
  "sim_input [0, 2, 3] [3, 1, 2] [3, 2, 1] \<and> (0::nat) < 2
   \<and> (\<exists>st. mm1_loop [0, 2, 3] [3, 2, 1] True (mm1_init [0, 2, 3] [3, 1, 2]) = Some st
         \<and> list_all (\<lambda>b. b) (servedMask st))
   \<and> (\<exists>st. mms_loop [0, 2, 3] [3, 2, 1] 2 True (mms_init [0, 2, 3] [3, 1, 2] 2) = Some st
         \<and> list_all (\<lambda>b. b) (servedMask st))
   \<and> map_option serviceEnds (mm1_loop [0, 2, 3] [3, 2, 1] True (mm1_init [0, 2, 3] [3, 1, 2]))
       = Some [6, 3, 5]"
proof -
  have h: "sim_input [0, 2, 3] [3, 1, 2] [3, 2, 1]" by (simp add: sim_input_def)
  have e: "map_option serviceEnds (mm1_loop [0, 2, 3] [3, 2, 1] True (mm1_init [0, 2, 3] [3, 1, 2]))
       = Some [6, 3, 5]"
    by code_simp
  show ?thesis
    using loops_terminate_with_all_served [OF h, of 2 True] h e by fastforce
qed

subsection \<open>The utilisation\<close>

lemma mms_utilization_percentage:
  assumes "0 < servers"
  shows "percentage (mms_utilization rs ends servers)"
proof -
  define simulationEnd where "simulationEnd = Max (set (ends @ [0]))"
  define busy where "busy = foldl (\<lambda>acc val. acc + min val servers) 0
      (fold mark_busy (filter (\<lambda>r. 0 \<le> row_serviceStart r \<and> 0 \<le> row_serviceEnd r) rs)
         (replicate (nat (simulationEnd + 1)) 0))"
  define u where "u = (if 0 < simulationEnd
             then js_mul (js_div (Fin (of_nat busy))
                            (Fin (of_int simulationEnd * of_nat servers))) (Fin 100)
             else Fin 0)"
  have eq: "mms_utilization rs ends servers = js_min u (Fin 100)"
    by (simp add: mms_utilization_def Let_def u_def busy_def simulationEnd_def)
  have "\<exists>v. u = Fin v \<and> 0 \<le> v"
  proof (cases "0 < simulationEnd")
    case True
    then have "real_of_int simulationEnd * real servers \<noteq> 0" using assms by simp
    then have "u = Fin (real busy / (real_of_int simulationEnd * real servers) * 100)"
      using True by (simp add: u_def)
    moreover have "0 \<le> real busy / (real_of_int simulationEnd * real servers) * 100"
      using True by simp
    ultimately show ?thesis by blast
  next
    case False
    then show ?thesis by (simp add: u_def)
  qed
  then obtain v where v: "u = Fin v" "0 \<le> v" by blast
  show ?thesis unfolding eq v(1) using v(2) by (simp add: js_min_def percentage_def)
qed

lemma sum_list_all_zero:
  fixes xs :: "int list"
  shows "(\<And>x. x \<in> set xs \<Longrightarrow> x = 0) \<Longrightarrow> sum_list xs = 0"
  by (induction xs) simp_all

lemma mm1_utilization_percentage:
  assumes "inv1 arr svc st" and "list_all (\<lambda>b. b) (servedMask st)" and "0 \<le> sum_list svc"
  shows "percentage (mm1_utilization svc (serviceStarts st) (serviceEnds st))"
proof (cases "serviceEnds st = [] \<or> serviceStarts st = []")
  case True
  then show ?thesis by (auto simp: mm1_utilization_def percentage_def)
next
  case False
  define totalTime where "totalTime = Max (set (serviceEnds st)) - Min (set (serviceStarts st))"
  have eq: "mm1_utilization svc (serviceStarts st) (serviceEnds st)
      = (if 0 < totalTime
         then js_mul (js_div (Fin (of_int (sum_list svc))) (Fin (of_int totalTime))) (Fin 100)
         else Fin 0)"
    using False by (simp add: mm1_utilization_def Let_def totalTime_def)
  have len: "inv_len arr svc st" and rem: "inv_rem st" and busy: "inv_busy svc st"
    and last: "inv_last st"
    using assms(1) by (simp_all add: inv1_def)
  have lens: "length (remainingTimes st) = length arr" "length (servedMask st) = length arr"
    "length (serviceEnds st) = length arr"
    using len by (simp_all add: inv_len_def)
  have "\<And>x. x \<in> set (remainingTimes st) \<Longrightarrow> x = 0"
  proof -
    fix x assume mem: "x \<in> set (remainingTimes st)"
    obtain i where i: "i < length (remainingTimes st)" "x = remainingTimes st ! i"
      using mem unfolding in_set_conv_nth by blast
    have "servedMask st ! i" using assms(2) i(1) lens by (simp add: list_all_length)
    then show "x = 0" using rem i unfolding inv_rem_def by simp
  qed
  then have sum0: "sum_list (remainingTimes st) = 0" by (rule sum_list_all_zero)
  have bound: "sum_list svc \<le> totalTime \<or> sum_list svc = 0"
  proof (cases "sum_list (remainingTimes st) = sum_list svc")
    case True
    then show ?thesis using sum0 by simp
  next
    case neq: False
    then obtain j where j: "j < length (serviceStarts st)"
      "sum_list svc - sum_list (remainingTimes st) \<le> currentTime st - serviceStarts st ! j"
      using busy unfolding inv_busy_def by blast
    have "servedMask st \<noteq> []" using False lens by auto
    then obtain i where i: "i < length (serviceEnds st)" "serviceEnds st ! i = currentTime st"
      using last assms(2) unfolding inv_last_def by blast
    have "currentTime st \<le> Max (set (serviceEnds st))"
      using i by (metis List.finite_set Max_ge nth_mem)
    moreover have "Min (set (serviceStarts st)) \<le> serviceStarts st ! j"
      using j(1) by (simp add: Min_le)
    ultimately show ?thesis using j(2) sum0 by (simp add: totalTime_def)
  qed
  show ?thesis
  proof (cases "0 < totalTime")
    case True
    have nz: "real_of_int totalTime \<noteq> 0" using True by simp
    have val: "mm1_utilization svc (serviceStarts st) (serviceEnds st)
        = Fin (real_of_int (sum_list svc) / real_of_int totalTime * 100)"
      unfolding eq using True nz by simp
    have "sum_list svc \<le> totalTime" using bound True by linarith
    then have "real_of_int (sum_list svc) \<le> real_of_int totalTime" by simp
    then have q1: "real_of_int (sum_list svc) / real_of_int totalTime \<le> 1"
      using True by (simp add: divide_le_eq_1_pos)
    have q0: "0 \<le> real_of_int (sum_list svc) / real_of_int totalTime"
      using True assms(3) by simp
    define q where "q = real_of_int (sum_list svc) / real_of_int totalTime"
    have "0 \<le> q" "q \<le> 1" using q0 q1 by (simp_all only: q_def)
    then have "0 \<le> q * 100 \<and> q * 100 \<le> 100" by simp
    then have "0 \<le> real_of_int (sum_list svc) / real_of_int totalTime * 100
        \<and> real_of_int (sum_list svc) / real_of_int totalTime * 100 \<le> 100"
      by (simp only: q_def)
    then show ?thesis unfolding val percentage_def by (simp only: jsnum.case)
  next
    case False
    then show ?thesis unfolding eq by (simp add: percentage_def)
  qed
qed

lemma sim_input_total:
  assumes "sim_input arr svc prio"
  shows "0 \<le> sum_list svc"
proof -
  have "\<forall>x \<in> set svc. 1 \<le> x" using assms by (simp add: sim_input_def list_all_iff)
  then have "\<forall>x \<in> set svc. 0 \<le> x" by fastforce
  then show ?thesis by (simp add: sum_list_nonneg)
qed

lemma mm1_result_utilization:
  assumes "sim_input arr svc prio"
  shows "\<exists>r. mm1Simulation arr svc prio up = Some r
            \<and> percentage (serverUtilization (averages r))"
proof -
  obtain st where st: "mm1_loop arr prio up (mm1_init arr svc) = Some st"
    "inv1 arr svc st" "list_all (\<lambda>b. b) (servedMask st)"
    using mm1_run [OF assms] by blast
  have "percentage (mm1_utilization svc (serviceStarts st) (serviceEnds st))"
    by (rule mm1_utilization_percentage [OF st(2,3) sim_input_total [OF assms]])
  then show ?thesis by (simp add: mm1Simulation_def st(1) Let_def make_averages_def)
qed

lemma mms_result_utilization:
  fixes prio :: "int list" and up :: bool
  assumes "sim_input arr svc prio" and "0 < servers"
  shows "\<exists>r. mmsSSimulation arr svc prio servers up = Some r
            \<and> percentage (serverUtilization (averages r))"
proof -
  obtain st where st: "mms_loop arr prio servers up (mms_init arr svc servers) = Some st"
    using mms_run [OF assms] by blast
  show ?thesis
    using mms_utilization_percentage [OF assms(2)]
    by (simp add: mmsSSimulation_def st(1) Let_def make_averages_def)
qed

text \<open>
  Claim C8. On one arrival time, one service time of at least 1 and one priority per
  customer, and with at least one server, each of \<open>mm1Simulation\<close>, \<open>mg1Simulation\<close>,
  \<open>mmsSSimulation\<close> and \<open>mgsSSimulation\<close> returns a result whose
  \<open>averages.serverUtilization\<close> is a finite number from 0 to 100.
\<close>

theorem utilization_is_a_percentage:
  assumes "sim_input arrivalTimes serviceTimes priorities" and "0 < servers"
  shows "(\<exists>r. mm1Simulation arrivalTimes serviceTimes priorities usePriority = Some r
            \<and> percentage (serverUtilization (averages r)))
       \<and> (\<exists>r. mg1Simulation arrivalTimes serviceTimes priorities usePriority = Some r
            \<and> percentage (serverUtilization (averages r)))
       \<and> (\<exists>r. mmsSSimulation arrivalTimes serviceTimes priorities servers usePriority = Some r
            \<and> percentage (serverUtilization (averages r)))
       \<and> (\<exists>r. mgsSSimulation arrivalTimes serviceTimes priorities servers usePriority = Some r
            \<and> percentage (serverUtilization (averages r)))"
  unfolding mg1Simulation_def mgsSSimulation_def
  using mm1_result_utilization [OF assms(1)] mms_result_utilization [OF assms] by blast

theorem utilization_is_a_percentage_witness:
  "sim_input [0, 2, 3, 20] [3, 1, 2, 4] [3, 2, 1, 1] \<and> (0::nat) < 2
   \<and> (\<exists>r. mm1Simulation [0, 2, 3, 20] [3, 1, 2, 4] [3, 2, 1, 1] True = Some r
         \<and> percentage (serverUtilization (averages r)))
   \<and> (\<exists>r. mmsSSimulation [0, 2, 3, 20] [3, 1, 2, 4] [3, 2, 1, 1] 2 True = Some r
         \<and> percentage (serverUtilization (averages r)))
   \<and> map_option (\<lambda>r. serverUtilization (averages r))
        (mm1Simulation [0, 2, 3, 20] [3, 1, 2, 4] [3, 2, 1, 1] True) = Some (Fin (125 / 3))"
proof -
  have h: "sim_input [0, 2, 3, 20] [3, 1, 2, 4] [3, 2, 1, 1]" by (simp add: sim_input_def)
  have e: "map_option (\<lambda>r. serverUtilization (averages r))
        (mm1Simulation [0, 2, 3, 20] [3, 1, 2, 4] [3, 2, 1, 1] True) = Some (Fin (125 / 3))"
    by code_simp
  have z: "(0::nat) < 2" by simp
  note u = utilization_is_a_percentage [OF h z, where usePriority = True]
  show ?thesis
    by (intro conjI h z e u [THEN conjunct1] u [THEN conjunct2, THEN conjunct2, THEN conjunct1])
qed


subsection \<open>The selection\<close>

lemma lowest_in_step:
  assumes "lowest_in p S b" and "\<forall>j \<in> S. j < x"
  shows "lowest_in p (insert x S) (if p ! x < p ! b then x else b)"
proof (cases "p ! x < p ! b")
  case True
  have "p ! x \<le> p ! j" if "j \<in> S" for j
    using assms(1) that True unfolding lowest_in_def by fastforce
  moreover have "x \<le> j" if "j \<in> S" "p ! j = p ! x" for j
    using assms(1) that True unfolding lowest_in_def by fastforce
  ultimately show ?thesis using True unfolding lowest_in_def by auto
next
  case False
  have "b \<in> S" using assms(1) unfolding lowest_in_def by blast
  then have "b \<le> x" using assms(2) by fastforce
  then show ?thesis using False assms(1) unfolding lowest_in_def by auto
qed

lemma pick_priority_lowest:
  assumes "lowest_in p S b" and "\<forall>j \<in> S. \<forall>x \<in> set xs. j < x" and "sorted_wrt (<) xs"
  shows "lowest_in p (S \<union> set xs) (pick_priority p b xs)"
  using assms
proof (induction xs arbitrary: S b)
  case Nil
  then show ?case by (simp add: pick_priority_def)
next
  case (Cons x xs)
  let ?b = "if p ! x < p ! b then x else b"
  have 1: "lowest_in p (insert x S) ?b"
    by (rule lowest_in_step [OF Cons.prems(1)]) (use Cons.prems(2) in simp)
  have 2: "\<forall>j \<in> insert x S. \<forall>y \<in> set xs. j < y"
    using Cons.prems(2,3) by auto
  have 3: "sorted_wrt (<) xs" using Cons.prems(3) by simp
  have "lowest_in p (insert x S \<union> set xs) (pick_priority p ?b xs)"
    by (rule Cons.IH [OF 1 2 3])
  moreover have "pick_priority p b (x # xs) = pick_priority p ?b xs"
    by (simp add: pick_priority_def)
  ultimately show ?case by simp
qed

lemma lowest_in_choice:
  assumes "lowest_in p (set pool) b"
  shows "lowest_index_choice p True pool = b"
proof -
  let ?M = "set (filter (\<lambda>i. list_all (\<lambda>j. p ! i \<le> p ! j) pool) pool)"
  have b: "b \<in> ?M" using assms unfolding lowest_in_def by (simp add: list_all_iff)
  have "b \<le> i" if "i \<in> ?M" for i
  proof -
    have i: "i \<in> set pool" "\<forall>j \<in> set pool. p ! i \<le> p ! j"
      using that by (simp_all add: list_all_iff)
    have "p ! i \<le> p ! b" using i(2) assms unfolding lowest_in_def by blast
    moreover have "p ! b \<le> p ! i" using i(1) assms unfolding lowest_in_def by blast
    ultimately have "p ! i = p ! b" by simp
    then show ?thesis using i(1) assms unfolding lowest_in_def by blast
  qed
  then have "Min ?M = b" using b by (intro Min_eqI) auto
  then show ?thesis by (simp add: lowest_index_choice_def)
qed

text \<open>On a pool in the order of the indices the selection breaks ties by the lowest index.\<close>

lemma select_waiting_lowest:
  assumes "sorted_wrt (<) pool" and "pool \<noteq> []"
  shows "select_waiting p up pool = lowest_index_choice p up pool"
proof (cases up)
  case False
  then show ?thesis by (simp add: select_waiting_def lowest_index_choice_def)
next
  case True
  obtain w xs where pool: "pool = w # xs" using assms(2) by (cases pool) auto
  have 0: "lowest_in p {w} w" by (simp add: lowest_in_def)
  have 1: "\<forall>j \<in> {w}. \<forall>x \<in> set xs. j < x" using assms(1) pool by simp
  have 2: "sorted_wrt (<) xs" using assms(1) pool by simp
  have "lowest_in p ({w} \<union> set xs) (pick_priority p w xs)"
    by (rule pick_priority_lowest [OF 0 1 2])
  moreover have "pick_priority p (hd pool) pool = pick_priority p w xs"
    by (simp add: pool pick_priority_def)
  ultimately have "lowest_in p (set pool) (pick_priority p (hd pool) pool)"
    by (simp add: pool)
  then have "lowest_index_choice p True pool = pick_priority p (hd pool) pool"
    by (rule lowest_in_choice)
  then show ?thesis using True by (simp add: select_waiting_def)
qed

text \<open>The pool of the single-server loop is in the order of the indices.\<close>

lemma waiting_sorted: "sorted_wrt (<) (waiting arr st)"
  unfolding waiting_def by (rule sorted_wrt_filter) (rule sorted_wrt_upt)

text \<open>So is the pool of the multi-server loop while idle servers are filled.\<close>

lemma remove1_sorted:
  fixes xs :: "nat list"
  assumes "sorted_wrt (<) xs"
  shows "sorted_wrt (<) (remove1 x xs)"
proof -
  have "distinct xs" using assms by (simp add: strict_sorted_iff)
  then have "remove1 x xs = filter ((\<noteq>) x) xs"
    by (simp add: distinct_remove1_removeAll removeAll_filter_not_eq)
  then show ?thesis using assms by (simp add: sorted_wrt_filter)
qed

lemma assign_idle_sorted:
  assumes "sorted_wrt (<) (fst ps)"
  shows "sorted_wrt (<) (fst (assign_idle p up sIdx ps))"
  using assms by (simp add: assign_idle_def Let_def remove1_sorted)

lemma assign_idle_fold_sorted:
  assumes "sorted_wrt (<) (fst ps)"
  shows "sorted_wrt (<) (fst (fold (assign_idle p up) ss ps))"
  using assms by (induction ss arbitrary: ps) (simp_all add: assign_idle_sorted)

lemma mm1_selection_lowest:
  assumes "waiting arr st \<noteq> []"
  shows "select_waiting p up (waiting arr st) = lowest_index_choice p up (waiting arr st)"
  by (rule select_waiting_lowest [OF waiting_sorted assms])

text \<open>
  Claim C4. The selection breaks ties by the lowest index wherever the pool is in the
  order of the indices, which it is in the single-server loop and while the idle servers
  are filled. The preemption pass of \<open>mmsSSimulation\<close> appends the preempted customer to
  the pool, and the next server selects from a pool that is no longer in that order. With
  two servers, priorities on, arrival times 0, 0, 1, 1, service times 5, 5, 1, 1 and
  priorities 2, 3, 2, 1: at time 1 customers C1 and C2 are on the servers and the pool is
  C3, C4; the first server preempts C1 for C4, the pool becomes C3, C1, both of
  priority 2, and the second server takes C3 (index 2) although C1 (index 0) waits with
  the same priority. The run serves C3 from 1 to 2 and resumes C1 at 2.
\<close>

theorem preemption_tie_not_lowest_index:
  "(case mms_step [0, 0, 1, 1] [2, 3, 2, 1] 2 True (mms_init [0, 0, 1, 1] [5, 5, 1, 1] 2) of
      Inl st \<Rightarrow> False
    | Inr st \<Rightarrow>
        currentTime st = 1 \<and> serverOccupancy st = [Some 0, Some 1]
        \<and> fst (preempt [2, 3, 2, 1] 0 ([2, 3], st)) = [2, 0]
        \<and> serverOccupancy (snd (preempt [2, 3, 2, 1] 1 (preempt [2, 3, 2, 1] 0 ([2, 3], st))))
            = [Some 3, Some 2])
   \<and> pick_priority [2, 3, 2, 1] (hd [2, 0]) [2, 0] = 2
   \<and> lowest_index_choice [2, 3, 2, 1] True [2, 0] = 0
   \<and> chunk_triples (mmsSSimulation [0, 0, 1, 1] [5, 5, 1, 1] [2, 3, 2, 1] 2 True)
       = Some [(''C1'', 0, 1), (''C2'', 0, 1), (''C4'', 1, 2), (''C3'', 1, 2),
               (''C1'', 2, 6), (''C2'', 2, 6)]"
  by code_simp

end
